theory Spec2Isabelle
  imports Main "HOL-Library.Word"
begin

unbundle bit_operations_syntax

section \<open>The value macros of midi.h\<close>

text \<open>
  The macros of \<^verbatim>\<open>midi.h\<close> are expanded on operands of type \<^verbatim>\<open>int\<close>: every MIDI value
  type (\<^verbatim>\<open>MIDIValue\<close>, \<^verbatim>\<open>MIDIByte\<close>, \<^verbatim>\<open>MIDILongValue\<close>) is narrower than \<^verbatim>\<open>int\<close> and is
  promoted before \<^verbatim>\<open><<\<close>, \<^verbatim>\<open>>>\<close>, \<^verbatim>\<open>&\<close> and \<^verbatim>\<open>|\<close> apply. A C \<^verbatim>\<open>int\<close> is a 32-bit
  word; \<^verbatim>\<open>>>\<close> on it is the arithmetic shift.
\<close>

type_synonym c_int = "32 word"

text \<open>\<^verbatim>\<open>#define MIDI_NIBBLE_VALUE( h, l ) ( ((h)<<4)|((l)&0xf) )\<close>\<close>

definition MIDI_NIBBLE_VALUE :: "c_int \<Rightarrow> c_int \<Rightarrow> c_int" where
  "MIDI_NIBBLE_VALUE h l = (push_bit 4 h) OR (l AND 0xf)"

text \<open>\<^verbatim>\<open>#define MIDI_HIGH_NIBBLE( b ) (((b)>>4)&0xf)\<close>\<close>

definition MIDI_HIGH_NIBBLE :: "c_int \<Rightarrow> c_int" where
  "MIDI_HIGH_NIBBLE b = (signed_drop_bit 4 b) AND 0xf"

text \<open>\<^verbatim>\<open>#define MIDI_LOW_NIBBLE( b ) ((b)&0xf)\<close>\<close>

definition MIDI_LOW_NIBBLE :: "c_int \<Rightarrow> c_int" where
  "MIDI_LOW_NIBBLE b = b AND 0xf"

text \<open>\<^verbatim>\<open>#define MIDI_LONG_VALUE( m, l ) (((m & 0x7f)<<7) | (l & 0x7f))\<close>\<close>

definition MIDI_LONG_VALUE :: "c_int \<Rightarrow> c_int \<Rightarrow> c_int" where
  "MIDI_LONG_VALUE m l = (push_bit 7 (m AND 0x7f)) OR (l AND 0x7f)"

text \<open>\<^verbatim>\<open>#define MIDI_LSB( v )  (v)     & 0x7f\<close>\<close>

definition MIDI_LSB :: "c_int \<Rightarrow> c_int" where
  "MIDI_LSB v = v AND 0x7f"

text \<open>\<^verbatim>\<open>#define MIDI_MSB( v ) ((v)>>7) & 0x7f\<close>\<close>

definition MIDI_MSB :: "c_int \<Rightarrow> c_int" where
  "MIDI_MSB v = (signed_drop_bit 7 v) AND 0x7f"


section \<open>The list container of list.c\<close>

text \<open>
  Pointers are addresses, \<open>NULL\<close> is address 0. The heap is split by type: one partial map
  holds the \<^verbatim>\<open>struct MIDIList\<close> objects that are allocated, another the
  \<^verbatim>\<open>struct MIDIListEntry\<close> objects. \<^verbatim>\<open>free\<close> removes an address from its map. A read or
  write through \<open>NULL\<close> or through an address that is not allocated is undefined behaviour
  in C; the model stops there with a \<open>fault\<close>.

  \<^verbatim>\<open>malloc\<close> is a parameter of the functions that call it: the address it returns, \<open>NULL\<close>
  when the allocation fails.

  The retain and release hooks are function pointers supplied by the client. The model
  records each call made through them (\<open>RetainCall l x\<close> stands for the call of the
  function \<^verbatim>\<open>l->retain\<close> on \<open>x\<close>) and assumes that a hook does not touch the list module's memory.
  \<^verbatim>\<open>MIDIErrorNumber\<close> is the process-wide error number of midi.h; the message that
  \<^verbatim>\<open>MIDILogLocation\<close> hands to the optional logger is output only and is left out. The file
  is modelled as compiled by default (\<^verbatim>\<open>NO_PRECOND\<close> undefined). The error kinds come from
  \<^verbatim>\<open>errno.h\<close>, with their POSIX values.
\<close>

type_synonym ptr = nat

abbreviation NULL :: ptr where "NULL \<equiv> 0"

text \<open>The error kinds of \<^verbatim>\<open>errno.h\<close> that list.c uses.\<close>

definition ENOMEM :: int where "ENOMEM = 12"
definition EFAULT :: int where "EFAULT = 14"
definition EINVAL :: int where "EINVAL = 22"

text \<open>\<^verbatim>\<open>struct MIDIListEntry { void * item; struct MIDIListEntry * next; }\<close>; the field
  \<^verbatim>\<open>next\<close> is written \<open>nxt\<close>.\<close>

record MIDIListEntry =
  item :: ptr
  nxt :: ptr

text \<open>\<^verbatim>\<open>struct MIDIList\<close>: the counter \<^verbatim>\<open>int refs\<close>, the function pointers \<^verbatim>\<open>retain\<close> and
  \<^verbatim>\<open>release\<close> (each takes one \<^verbatim>\<open>void *\<close>), and \<^verbatim>\<open>struct MIDIListEntry * data\<close>. The counter \<open>refs\<close> is an unbounded integer here: the
  overflow of \<^verbatim>\<open>refs++\<close> is undefined in C and no property below reaches it.\<close>

record MIDIList =
  refs :: int
  retain :: ptr
  release :: ptr
  data :: ptr

text \<open>The calls made through the hooks of a list: the list and the item passed.\<close>

datatype hook_call = RetainCall ptr ptr | ReleaseCall ptr ptr

record memory =
  list_mem :: "ptr \<rightharpoonup> MIDIList"
  entry_mem :: "ptr \<rightharpoonup> MIDIListEntry"
  MIDIErrorNumber :: int
  hook_calls :: "hook_call list"

text \<open>Undefined behaviour: a dereference of \<open>NULL\<close>, or of an address that is not allocated.\<close>

datatype fault = NullDereference | InvalidPointer

text \<open>Reading \<^verbatim>\<open>*p\<close> for a list pointer and for an entry pointer.\<close>

definition load_list :: "memory \<Rightarrow> ptr \<Rightarrow> fault + MIDIList" where
  "load_list st p =
     (if p = NULL then Inl NullDereference
      else case list_mem st p of None \<Rightarrow> Inl InvalidPointer | Some L \<Rightarrow> Inr L)"

definition load_entry :: "memory \<Rightarrow> ptr \<Rightarrow> fault + MIDIListEntry" where
  "load_entry st p =
     (if p = NULL then Inl NullDereference
      else case entry_mem st p of None \<Rightarrow> Inl InvalidPointer | Some e \<Rightarrow> Inr e)"

text \<open>\<^verbatim>\<open>MIDIPrecondFailed( message, kind, retval )\<close>: \<^verbatim>\<open>MIDIErrorNumber = kind\<close>, the log line,
  and the return, which the callers below write out.\<close>

definition MIDIPrecondFailed :: "int \<Rightarrow> memory \<Rightarrow> memory" where
  "MIDIPrecondFailed kind st = st\<lparr>MIDIErrorNumber := kind\<rparr>"

text \<open>\<^verbatim>\<open>_list_item_retain\<close> and \<^verbatim>\<open>_list_item_release\<close>: the hook is called when the item and the
  hook pointer are both not \<open>NULL\<close>; \<^verbatim>\<open>&&\<close> reads \<^verbatim>\<open>list->retain\<close> only for an item that is
  not \<open>NULL\<close>.\<close>

definition list_item_retain :: "ptr \<Rightarrow> ptr \<Rightarrow> memory \<Rightarrow> fault + memory" where
  "list_item_retain list x st =
     (if x = NULL then Inr st
      else case load_list st list of
        Inl f \<Rightarrow> Inl f
      | Inr L \<Rightarrow>
          if retain L \<noteq> NULL then Inr (st\<lparr>hook_calls := hook_calls st @ [RetainCall list x]\<rparr>)
          else Inr st)"

definition list_item_release :: "ptr \<Rightarrow> ptr \<Rightarrow> memory \<Rightarrow> fault + memory" where
  "list_item_release list x st =
     (if x = NULL then Inr st
      else case load_list st list of
        Inl f \<Rightarrow> Inl f
      | Inr L \<Rightarrow>
          if release L \<noteq> NULL then Inr (st\<lparr>hook_calls := hook_calls st @ [ReleaseCall list x]\<rparr>)
          else Inr st)"

text \<open>\<^verbatim>\<open>MIDIListCreate( retain, release )\<close>; \<open>m\<close> is what \<^verbatim>\<open>malloc\<close> returned.\<close>

definition MIDIListCreate :: "ptr \<Rightarrow> ptr \<Rightarrow> ptr \<Rightarrow> memory \<Rightarrow> ptr \<times> memory" where
  "MIDIListCreate retain_fn release_fn m st =
     (if m = NULL then (NULL, MIDIPrecondFailed ENOMEM st)
      else (m, st\<lparr>list_mem := (list_mem st)(m \<mapsto>
              \<lparr>refs = 1, retain = retain_fn, release = release_fn, data = NULL\<rparr>)\<rparr>))"

text \<open>The loop of \<^verbatim>\<open>MIDIListDestroy\<close>: release the item, free the entry, go to the next one.
  On a heap whose entries form a cycle the loop does not end, which is the value \<open>None\<close>.\<close>

partial_function (option) destroy_loop :: "ptr \<Rightarrow> ptr \<Rightarrow> memory \<Rightarrow> (fault + memory) option" where
  "destroy_loop list entry st =
     (if entry = NULL then Some (Inr st)
      else case load_entry st entry of
        Inl f \<Rightarrow> Some (Inl f)
      | Inr e \<Rightarrow>
          (case list_item_release list (item e) st of
             Inl f \<Rightarrow> Some (Inl f)
           | Inr st1 \<Rightarrow>
               destroy_loop list (nxt e) (st1\<lparr>entry_mem := (entry_mem st1)(entry := None)\<rparr>)))"

text \<open>\<^verbatim>\<open>MIDIListDestroy( list )\<close>: the precondition, \<^verbatim>\<open>list->data = NULL\<close>, the loop,
  \<^verbatim>\<open>free( list )\<close>.\<close>

definition MIDIListDestroy :: "ptr \<Rightarrow> memory \<Rightarrow> (fault + memory) option" where
  "MIDIListDestroy list st =
     (if list = NULL then Some (Inr (MIDIPrecondFailed EFAULT st))
      else case load_list st list of
        Inl f \<Rightarrow> Some (Inl f)
      | Inr L \<Rightarrow>
          (case destroy_loop list (data L)
                  (st\<lparr>list_mem := (list_mem st)(list \<mapsto> L\<lparr>data := NULL\<rparr>)\<rparr>) of
             None \<Rightarrow> None
           | Some (Inl f) \<Rightarrow> Some (Inl f)
           | Some (Inr st1) \<Rightarrow> Some (Inr (st1\<lparr>list_mem := (list_mem st1)(list := None)\<rparr>))))"

text \<open>\<^verbatim>\<open>MIDIListRetain( list )\<close> and \<^verbatim>\<open>MIDIListRelease( list )\<close>, which destroys the list when
  \<^verbatim>\<open>--list->refs\<close> is zero.\<close>

definition MIDIListRetain :: "ptr \<Rightarrow> memory \<Rightarrow> fault + memory" where
  "MIDIListRetain list st =
     (if list = NULL then Inr (MIDIPrecondFailed EFAULT st)
      else case load_list st list of
        Inl f \<Rightarrow> Inl f
      | Inr L \<Rightarrow> Inr (st\<lparr>list_mem := (list_mem st)(list \<mapsto> L\<lparr>refs := refs L + 1\<rparr>)\<rparr>))"

definition MIDIListRelease :: "ptr \<Rightarrow> memory \<Rightarrow> (fault + memory) option" where
  "MIDIListRelease list st =
     (if list = NULL then Some (Inr (MIDIPrecondFailed EFAULT st))
      else case load_list st list of
        Inl f \<Rightarrow> Some (Inl f)
      | Inr L \<Rightarrow>
          (let st1 = st\<lparr>list_mem := (list_mem st)(list \<mapsto> L\<lparr>refs := refs L - 1\<rparr>)\<rparr>
           in if refs L - 1 = 0 then MIDIListDestroy list st1 else Some (Inr st1)))"

text \<open>\<^verbatim>\<open>MIDIListAdd( list, item )\<close>; \<open>m\<close> is what \<^verbatim>\<open>malloc\<close> returned. The result of \<^verbatim>\<open>malloc\<close>
  is not tested: \<^verbatim>\<open>entry->item = item\<close> is the next statement, a write through \<open>NULL\<close> when
  the allocation failed. The two field writes of the new entry are one update.\<close>

definition MIDIListAdd :: "ptr \<Rightarrow> ptr \<Rightarrow> ptr \<Rightarrow> memory \<Rightarrow> fault + int \<times> memory" where
  "MIDIListAdd list x m st =
     (if list = NULL then Inr (EFAULT, MIDIPrecondFailed EFAULT st)
      else if x = NULL then Inr (EINVAL, MIDIPrecondFailed EINVAL st)
      else if m = NULL then Inl NullDereference
      else case load_list st list of
        Inl f \<Rightarrow> Inl f
      | Inr L \<Rightarrow>
          (let st1 = st\<lparr>entry_mem := (entry_mem st)(m \<mapsto> \<lparr>item = x, nxt = data L\<rparr>)\<rparr>
           in case list_item_retain list x st1 of
                Inl f \<Rightarrow> Inl f
              | Inr st2 \<Rightarrow>
                  Inr (0, st2\<lparr>list_mem := (list_mem st2)(list \<mapsto> L\<lparr>data := m\<rparr>)\<rparr>)))"

text \<open>\<^verbatim>\<open>struct MIDIListEntry ** eptr\<close> of \<^verbatim>\<open>MIDIListRemove\<close> holds the address of a pointer:
  \<^verbatim>\<open>&(list->data)\<close> or \<^verbatim>\<open>&(entry->next)\<close>. \<open>load_loc\<close> is \<^verbatim>\<open>*eptr\<close>, \<open>store_loc\<close> is
  \<^verbatim>\<open>*eptr = v\<close>.\<close>

datatype loc = ListData ptr | EntryNext ptr

definition load_loc :: "memory \<Rightarrow> loc \<Rightarrow> fault + ptr" where
  "load_loc st a =
     (case a of
        ListData l \<Rightarrow> (case load_list st l of Inl f \<Rightarrow> Inl f | Inr L \<Rightarrow> Inr (data L))
      | EntryNext e \<Rightarrow> (case load_entry st e of Inl f \<Rightarrow> Inl f | Inr E \<Rightarrow> Inr (nxt E)))"

definition store_loc :: "loc \<Rightarrow> ptr \<Rightarrow> memory \<Rightarrow> fault + memory" where
  "store_loc a v st =
     (case a of
        ListData l \<Rightarrow>
          (case load_list st l of
             Inl f \<Rightarrow> Inl f
           | Inr L \<Rightarrow> Inr (st\<lparr>list_mem := (list_mem st)(l \<mapsto> L\<lparr>data := v\<rparr>)\<rparr>))
      | EntryNext e \<Rightarrow>
          (case load_entry st e of
             Inl f \<Rightarrow> Inl f
           | Inr E \<Rightarrow> Inr (st\<lparr>entry_mem := (entry_mem st)(e \<mapsto> E\<lparr>nxt := v\<rparr>)\<rparr>)))"

text \<open>The loop of \<^verbatim>\<open>MIDIListRemove\<close>, with its two branches.\<close>

partial_function (option) remove_loop ::
  "ptr \<Rightarrow> ptr \<Rightarrow> loc \<Rightarrow> ptr \<Rightarrow> memory \<Rightarrow> (fault + memory) option" where
  "remove_loop list x eptr entry st =
     (if entry = NULL then Some (Inr st)
      else case load_entry st entry of
        Inl f \<Rightarrow> Some (Inl f)
      | Inr e \<Rightarrow>
          if item e = x then
            (case list_item_release list (item e) st of
               Inl f \<Rightarrow> Some (Inl f)
             | Inr st1 \<Rightarrow>
                 (case store_loc eptr (nxt e) st1 of
                    Inl f \<Rightarrow> Some (Inl f)
                  | Inr st2 \<Rightarrow>
                      (let st3 = st2\<lparr>entry_mem := (entry_mem st2)(entry := None)\<rparr>
                       in case load_loc st3 eptr of
                            Inl f \<Rightarrow> Some (Inl f)
                          | Inr p \<Rightarrow> remove_loop list x eptr p st3)))
          else remove_loop list x (EntryNext entry) (nxt e) st)"

text \<open>\<^verbatim>\<open>MIDIListRemove( list, item )\<close>.\<close>

definition MIDIListRemove :: "ptr \<Rightarrow> ptr \<Rightarrow> memory \<Rightarrow> (fault + int \<times> memory) option" where
  "MIDIListRemove list x st =
     (if list = NULL then Some (Inr (EFAULT, MIDIPrecondFailed EFAULT st))
      else if x = NULL then Some (Inr (EINVAL, MIDIPrecondFailed EINVAL st))
      else case load_list st list of
        Inl f \<Rightarrow> Some (Inl f)
      | Inr L \<Rightarrow>
          (case remove_loop list x (ListData list) (data L) st of
             None \<Rightarrow> None
           | Some (Inl f) \<Rightarrow> Some (Inl f)
           | Some (Inr st1) \<Rightarrow> Some (Inr (0, st1))))"

text \<open>\<^verbatim>\<open>MIDIListApply( list, info, func )\<close>. \<open>func\<close> is the function pointer, \<open>fn\<close> what the
  function returns for an item and \<open>info\<close>; the callback is taken to leave the list alone.
  The sum \<open>result\<close> is an unbounded integer (signed overflow is undefined in C).\<close>

partial_function (option) apply_loop ::
  "(ptr \<Rightarrow> ptr \<Rightarrow> int) \<Rightarrow> ptr \<Rightarrow> ptr \<Rightarrow> int \<Rightarrow> memory \<Rightarrow> (fault + int) option" where
  "apply_loop fn info entry result st =
     (if entry = NULL then Some (Inr result)
      else case load_entry st entry of
        Inl f \<Rightarrow> Some (Inl f)
      | Inr e \<Rightarrow>
          apply_loop fn info (nxt e)
            (if item e \<noteq> NULL then result + fn (item e) info else result) st)"

definition MIDIListApply ::
  "ptr \<Rightarrow> ptr \<Rightarrow> ptr \<Rightarrow> (ptr \<Rightarrow> ptr \<Rightarrow> int) \<Rightarrow> memory \<Rightarrow> (fault + int \<times> memory) option" where
  "MIDIListApply list info func fn st =
     (if list = NULL then Some (Inr (EFAULT, MIDIPrecondFailed EFAULT st))
      else if func = NULL then Some (Inr (EINVAL, MIDIPrecondFailed EINVAL st))
      else case load_list st list of
        Inl f \<Rightarrow> Some (Inl f)
      | Inr L \<Rightarrow>
          (case apply_loop fn info (data L) 0 st of
             None \<Rightarrow> None
           | Some (Inl f) \<Rightarrow> Some (Inl f)
           | Some (Inr r) \<Rightarrow> Some (Inr (r, st))))"


section \<open>The list a heap holds\<close>

text \<open>
  \<open>chain h p cs\<close>: in the entry heap \<open>h\<close>, the pointer \<open>p\<close> is the head of a linked list
  that ends in \<open>NULL\<close>; \<open>cs\<close> gives, in order, the address of every entry and the item it
  holds.
\<close>

primrec chain :: "(ptr \<rightharpoonup> MIDIListEntry) \<Rightarrow> ptr \<Rightarrow> (ptr \<times> ptr) list \<Rightarrow> bool" where
  "chain h p [] = (p = NULL)"
| "chain h p (c # cs) =
     (p = fst c \<and> p \<noteq> NULL \<and>
      (case h p of None \<Rightarrow> False | Some e \<Rightarrow> item e = snd c \<and> chain h (nxt e) cs))"

text \<open>The calls that releasing the items \<open>xs\<close> of a list makes, in order: none for a list
  without a release hook, none for an item that is \<open>NULL\<close>.\<close>

definition released :: "MIDIList \<Rightarrow> ptr \<Rightarrow> ptr list \<Rightarrow> hook_call list" where
  "released L list xs =
     (if release L = NULL then [] else map (ReleaseCall list) (filter (\<lambda>x. x \<noteq> NULL) xs))"

text \<open>What one pass through the first branch of the loop of \<^verbatim>\<open>MIDIListRemove\<close> does to the
  memory: the entry is released, unlinked through \<open>eptr\<close> and freed.\<close>

definition unlink_post ::
  "ptr \<Rightarrow> MIDIList \<Rightarrow> ptr \<Rightarrow> loc \<Rightarrow> ptr \<Rightarrow> ptr \<Rightarrow> memory \<Rightarrow> memory \<Rightarrow> bool" where
  "unlink_post list L x eptr entry q st st3 \<longleftrightarrow>
     hook_calls st3 = hook_calls st @ released L list [x] \<and>
     MIDIErrorNumber st3 = MIDIErrorNumber st \<and>
     load_loc st3 eptr = Inr q \<and>
     (\<forall>a. a \<noteq> entry \<and> eptr \<noteq> EntryNext a \<longrightarrow> entry_mem st3 a = entry_mem st a) \<and>
     (\<forall>a E. eptr = EntryNext a \<and> entry_mem st a = Some E \<longrightarrow>
        (\<exists>E'. entry_mem st3 a = Some E' \<and> item E' = item E)) \<and>
     entry_mem st3 entry = None \<and>
     (\<forall>l. l \<noteq> list \<longrightarrow> list_mem st3 l = list_mem st l) \<and>
     (\<exists>L'. list_mem st3 list = Some L' \<and> refs L' = refs L \<and> retain L' = retain L \<and>
        release L' = release L) \<and>
     (eptr \<noteq> ListData list \<longrightarrow> list_mem st3 = list_mem st)"

text \<open>What the whole loop of \<^verbatim>\<open>MIDIListRemove\<close> does, started with \<open>eptr\<close> pointing at the
  head of the entries \<open>cs\<close>: the entries that hold \<open>x\<close> are released and freed, the others
  stay linked in their order, and nothing else changes.\<close>

definition remove_post ::
  "ptr \<Rightarrow> MIDIList \<Rightarrow> ptr \<Rightarrow> loc \<Rightarrow> (ptr \<times> ptr) list \<Rightarrow> memory \<Rightarrow> memory \<Rightarrow> bool" where
  "remove_post list L x eptr cs st st' \<longleftrightarrow>
     hook_calls st' = hook_calls st @ released L list (filter (\<lambda>y. y = x) (map snd cs)) \<and>
     MIDIErrorNumber st' = MIDIErrorNumber st \<and>
     (\<exists>p'. load_loc st' eptr = Inr p' \<and> chain (entry_mem st') p' (filter (\<lambda>c. snd c \<noteq> x) cs)) \<and>
     (\<forall>a. a \<notin> fst ` set cs \<and> eptr \<noteq> EntryNext a \<longrightarrow> entry_mem st' a = entry_mem st a) \<and>
     (\<forall>a E. eptr = EntryNext a \<and> entry_mem st a = Some E \<longrightarrow>
        (\<exists>E'. entry_mem st' a = Some E' \<and> item E' = item E)) \<and>
     (\<forall>c \<in> set cs. snd c = x \<longrightarrow> entry_mem st' (fst c) = None) \<and>
     (\<forall>l. l \<noteq> list \<longrightarrow> list_mem st' l = list_mem st l) \<and>
     (\<exists>L'. list_mem st' list = Some L' \<and> refs L' = refs L \<and> retain L' = retain L \<and>
        release L' = release L) \<and>
     (eptr \<noteq> ListData list \<longrightarrow> list_mem st' = list_mem st)"

text \<open>A memory with one list at address 1 (retain hook 7, release hook 8), to which the
  items 5, 6 and 5 were added in this order: the entries at 10, 11 and 12 hold 5, 6, 5 from the
  head on, and the retain hook was called once for each.\<close>

definition example_memory :: memory where
  "example_memory =
     \<lparr>list_mem = [1 \<mapsto> \<lparr>refs = 1, retain = 7, release = 8, data = 10\<rparr>],
      entry_mem = [10 \<mapsto> \<lparr>item = 5, nxt = 11\<rparr>, 11 \<mapsto> \<lparr>item = 6, nxt = 12\<rparr>,
                   12 \<mapsto> \<lparr>item = 5, nxt = NULL\<rparr>],
      MIDIErrorNumber = 0, hook_calls = [RetainCall 1 5, RetainCall 1 6, RetainCall 1 5]\<rparr>"

section \<open>Operations on a memory of lists, and the balance of the hooks\<close>

text \<open>One call of a public function of list.c. \<open>OpCreate r s m\<close> and \<open>OpAdd l x m\<close> carry the
  address \<open>m\<close> that \<^verbatim>\<open>malloc\<close> returns in the call; \<open>OpApply l info func fn\<close> carries the function
  pointer and what the function computes.\<close>

datatype list_op =
    OpCreate ptr ptr ptr
  | OpDestroy ptr
  | OpRetain ptr
  | OpRelease ptr
  | OpAdd ptr ptr ptr
  | OpRemove ptr ptr
  | OpApply ptr ptr ptr "ptr \<Rightarrow> ptr \<Rightarrow> int"

text \<open>Running one call; the value returned is dropped, the memory (or the fault) is kept.\<close>

fun run_op :: "list_op \<Rightarrow> memory \<Rightarrow> (fault + memory) option" where
  "run_op (OpCreate r s m) st = Some (Inr (snd (MIDIListCreate r s m st)))"
| "run_op (OpDestroy l) st = MIDIListDestroy l st"
| "run_op (OpRetain l) st = Some (MIDIListRetain l st)"
| "run_op (OpRelease l) st = MIDIListRelease l st"
| "run_op (OpAdd l x m) st =
     (case MIDIListAdd l x m st of Inl f \<Rightarrow> Some (Inl f) | Inr r \<Rightarrow> Some (Inr (snd r)))"
| "run_op (OpRemove l x) st =
     (case MIDIListRemove l x st of
        None \<Rightarrow> None | Some (Inl f) \<Rightarrow> Some (Inl f) | Some (Inr r) \<Rightarrow> Some (Inr (snd r)))"
| "run_op (OpApply l info func fn) st =
     (case MIDIListApply l info func fn st of
        None \<Rightarrow> None | Some (Inl f) \<Rightarrow> Some (Inl f) | Some (Inr r) \<Rightarrow> Some (Inr (snd r)))"

text \<open>What \<^verbatim>\<open>malloc\<close> guarantees: the address it returns is \<open>NULL\<close> or not in use.\<close>

fun malloc_fresh :: "list_op \<Rightarrow> memory \<Rightarrow> bool" where
  "malloc_fresh (OpCreate r s m) st = (m = NULL \<or> list_mem st m = None)"
| "malloc_fresh (OpAdd l x m) st = (m = NULL \<or> entry_mem st m = None)"
| "malloc_fresh _ st = True"

text \<open>The list a call works on.\<close>

fun op_list :: "list_op \<Rightarrow> ptr option" where
  "op_list (OpCreate r s m) = None"
| "op_list (OpDestroy l) = Some l"
| "op_list (OpRetain l) = Some l"
| "op_list (OpRelease l) = Some l"
| "op_list (OpAdd l x m) = Some l"
| "op_list (OpRemove l x) = Some l"
| "op_list (OpApply l info func fn) = Some l"

text \<open>A call neither reads through a dangling list pointer nor meets a failed allocation in
  \<^verbatim>\<open>MIDIListAdd\<close>: the two ways in which a call on a well-formed memory faults.\<close>

definition op_defined :: "list_op \<Rightarrow> memory \<Rightarrow> bool" where
  "op_defined op st \<longleftrightarrow>
     (case op_list op of None \<Rightarrow> True | Some l \<Rightarrow> l = NULL \<or> list_mem st l \<noteq> None) \<and>
     (case op of OpAdd l x m \<Rightarrow> l = NULL \<or> x = NULL \<or> m \<noteq> NULL | _ \<Rightarrow> True)"

text \<open>The number of retain calls minus the number of release calls made for item \<open>x\<close> through
  the hooks of list \<open>l\<close>.\<close>

definition pending :: "ptr \<Rightarrow> ptr \<Rightarrow> hook_call list \<Rightarrow> int" where
  "pending l x calls = int (count_list calls (RetainCall l x)) - int (count_list calls (ReleaseCall l x))"

text \<open>The list whose hook a call went through.\<close>

primrec call_list :: "hook_call \<Rightarrow> ptr" where
  "call_list (RetainCall l x) = l"
| "call_list (ReleaseCall l x) = l"

text \<open>A well-formed memory: nothing is allocated at \<open>NULL\<close>, the entries of every list are
  linked up to \<open>NULL\<close>, and two lists share no entry.\<close>

definition valid :: "memory \<Rightarrow> bool" where
  "valid st \<longleftrightarrow>
     list_mem st NULL = None \<and>
     (\<forall>l L. list_mem st l = Some L \<longrightarrow> (\<exists>cs. chain (entry_mem st) (data L) cs)) \<and>
     (\<forall>l l' L L' cs cs'. l \<noteq> l' \<and> list_mem st l = Some L \<and> list_mem st l' = Some L' \<and>
        chain (entry_mem st) (data L) cs \<and> chain (entry_mem st) (data L') cs' \<longrightarrow>
        fst ` set cs \<inter> fst ` set cs' = {})"

text \<open>The invariant of the hooks: an item is stored in a list that has both hooks as many times
  as it has been retained and not yet released through them.\<close>

definition balanced :: "memory \<Rightarrow> bool" where
  "balanced st \<longleftrightarrow>
     (\<forall>l L cs x. list_mem st l = Some L \<and> retain L \<noteq> NULL \<and> release L \<noteq> NULL \<and>
        chain (entry_mem st) (data L) cs \<and> x \<noteq> NULL \<longrightarrow>
        pending l x (hook_calls st) = int (count_list (map snd cs) x))"

text \<open>The same, as what one step keeps: for every list that has both hooks, the retain calls
  not yet matched by a release call exceed the stored occurrences of an item by as much after
  the step as before it (a list that the step frees stores nothing afterwards).\<close>

definition balance_kept :: "memory \<Rightarrow> memory \<Rightarrow> bool" where
  "balance_kept st st' \<longleftrightarrow>
     (\<forall>l L cs x. list_mem st l = Some L \<and> retain L \<noteq> NULL \<and> release L \<noteq> NULL \<and>
        chain (entry_mem st) (data L) cs \<and> x \<noteq> NULL \<longrightarrow>
        (\<exists>cs'. (case list_mem st' l of None \<Rightarrow> cs' = []
                 | Some L' \<Rightarrow> retain L' = retain L \<and> release L' = release L \<and>
                     chain (entry_mem st') (data L') cs') \<and>
           pending l x (hook_calls st') - int (count_list (map snd cs') x) =
           pending l x (hook_calls st) - int (count_list (map snd cs) x)))"

text \<open>The hook calls a call on list \<open>l\<close> is expected to make, given the list structure \<open>L\<close> and
  the items \<open>xs\<close> the list holds before the call: \<^verbatim>\<open>MIDIListAdd\<close> retains the item it links in,
  \<^verbatim>\<open>MIDIListRemove\<close> releases once each entry that holds the item, \<^verbatim>\<open>MIDIListDestroy\<close> releases once
  each entry, \<^verbatim>\<open>MIDIListRelease\<close> does so when the counter reaches zero; no other call goes
  through a hook.\<close>

fun expected_calls :: "list_op \<Rightarrow> MIDIList \<Rightarrow> ptr list \<Rightarrow> hook_call list" where
  "expected_calls (OpAdd l x m) L xs = (if x \<noteq> NULL \<and> retain L \<noteq> NULL then [RetainCall l x] else [])"
| "expected_calls (OpRemove l x) L xs =
     (if x \<noteq> NULL then released L l (filter (\<lambda>y. y = x) xs) else [])"
| "expected_calls (OpDestroy l) L xs = released L l xs"
| "expected_calls (OpRelease l) L xs = (if refs L - 1 = 0 then released L l xs else [])"
| "expected_calls _ L xs = []"

text \<open>The entries the list is expected to link after the call (\<open>None\<close>: the list is freed).\<close>

fun expected_cells :: "list_op \<Rightarrow> MIDIList \<Rightarrow> (ptr \<times> ptr) list \<Rightarrow> (ptr \<times> ptr) list option" where
  "expected_cells (OpAdd l x m) L cs = Some (if x \<noteq> NULL then (m, x) # cs else cs)"
| "expected_cells (OpRemove l x) L cs = Some (if x \<noteq> NULL then filter (\<lambda>c. snd c \<noteq> x) cs else cs)"
| "expected_cells (OpDestroy l) L cs = None"
| "expected_cells (OpRelease l) L cs = (if refs L - 1 = 0 then None else Some cs)"
| "expected_cells _ L cs = Some cs"

text \<open>The call made exactly the expected hook calls and left exactly the expected entries.\<close>

definition target_effect ::
  "list_op \<Rightarrow> memory \<Rightarrow> memory \<Rightarrow> bool" where
  "target_effect op st st' \<longleftrightarrow>
     (case op_list op of
        None \<Rightarrow> hook_calls st' = hook_calls st
      | Some l \<Rightarrow>
          (case list_mem st l of
             None \<Rightarrow> hook_calls st' = hook_calls st
           | Some L \<Rightarrow>
               (\<forall>cs. chain (entry_mem st) (data L) cs \<longrightarrow>
                  hook_calls st' = hook_calls st @ expected_calls op L (map snd cs) \<and>
                  (case expected_cells op L cs of
                     None \<Rightarrow> list_mem st' l = None
                   | Some cs' \<Rightarrow>
                       (case list_mem st' l of None \<Rightarrow> False
                        | Some L' \<Rightarrow> chain (entry_mem st') (data L') cs')))))"

text \<open>A summary of a step from \<open>st\<close> to \<open>st'\<close> that works on list \<open>t\<close>, whose entries are \<open>cs\<close>
  before and \<open>cs'\<close> after: other lists and entries outside \<open>cs\<close> and the fresh addresses are
  untouched, the hooks of \<open>t\<close> are kept, and the hook calls made are \<open>calls\<close>, all through \<open>t\<close>.\<close>

definition transition ::
  "memory \<Rightarrow> memory \<Rightarrow> ptr \<Rightarrow> (ptr \<times> ptr) list \<Rightarrow> (ptr \<times> ptr) list \<Rightarrow> ptr set \<Rightarrow>
   hook_call list \<Rightarrow> bool" where
  "transition st st' t cs cs' fresh calls \<longleftrightarrow>
     (\<forall>l. l \<noteq> t \<longrightarrow> list_mem st' l = list_mem st l) \<and>
     (\<forall>a. a \<notin> fst ` set cs \<union> fresh \<longrightarrow> entry_mem st' a = entry_mem st a) \<and>
     fresh \<inter> dom (entry_mem st) = {} \<and>
     (case list_mem st t of None \<Rightarrow> cs = [] \<and> cs' = [] \<and> calls = []
      | Some L \<Rightarrow> chain (entry_mem st) (data L) cs) \<and>
     (case list_mem st' t of None \<Rightarrow> cs' = [] | Some L' \<Rightarrow> chain (entry_mem st') (data L') cs') \<and>
     fst ` set cs' \<subseteq> fst ` set cs \<union> fresh \<and>
     (\<forall>L L'. list_mem st t = Some L \<and> list_mem st' t = Some L' \<longrightarrow>
        retain L' = retain L \<and> release L' = release L) \<and>
     (\<forall>L. list_mem st t = Some L \<and> retain L \<noteq> NULL \<and> release L \<noteq> NULL \<longrightarrow>
        (\<forall>x. x \<noteq> NULL \<longrightarrow>
           pending t x calls = int (count_list (map snd cs') x) - int (count_list (map snd cs) x))) \<and>
     list_mem st' NULL = None \<and>
     hook_calls st' = hook_calls st @ calls \<and>
     (\<forall>c \<in> set calls. call_list c = t)"

text \<open>What every call is shown to do: the expected effect on its list, as a step with a
  summary; only \<^verbatim>\<open>MIDIListCreate\<close> makes a list appear.\<close>

definition op_summary :: "list_op \<Rightarrow> memory \<Rightarrow> memory \<Rightarrow> bool" where
  "op_summary op st st' \<longleftrightarrow>
     target_effect op st st' \<and>
     (\<exists>t cs cs' fresh calls. transition st st' t cs cs' fresh calls \<and>
        (list_mem st t = None \<and> list_mem st' t \<noteq> None \<longrightarrow> (\<exists>r s. op = OpCreate r s t)))"

section \<open>The network transport, from its specification\<close>

text \<open>
  The RTP transport, the AppleMIDI session, the clock and the message queue are not among the
  sources at hand (the test build lists \<^verbatim>\<open>driver_rtp.c\<close>, \<^verbatim>\<open>driver_applemidi.c\<close>, \<^verbatim>\<open>clock.c\<close>,
  \<^verbatim>\<open>message_queue.c\<close> and \<^verbatim>\<open>runloop.c\<close>; their code is absent). The definitions of this section
  follow the words of the specification.
\<close>

subsection \<open>RTP transport\<close>

type_synonym byte = "8 word"

text \<open>Modelled from the spec: the variable-length encoding of a delta-time in the MIDI command section (RTP driver, absent):
  seven bits to a byte, most significant group first, every byte but the last marked by its top
  bit. \<open>vlq_prefix n\<close> are the marked bytes of \<open>n\<close>.\<close>

fun vlq_prefix :: "nat \<Rightarrow> byte list" where
  "vlq_prefix n = (if n = 0 then [] else vlq_prefix (n div 128) @ [of_nat (128 + n mod 128)])"

text \<open>Modelled from the spec: the encoding of a delta-time (RTP driver, absent): the marked bytes of the upper groups,
  then the lowest seven bits.\<close>

definition vlq_encode :: "nat \<Rightarrow> byte list" where
  "vlq_encode n = vlq_prefix (n div 128) @ [of_nat (n mod 128)]"

text \<open>Modelled from the spec: reading a delta-time back (RTP driver, absent): a byte of 128 or more continues the
  quantity; the result is the value and the bytes left. No byte left is a malformed encoding.\<close>

fun vlq_decode :: "nat \<Rightarrow> byte list \<Rightarrow> (nat \<times> byte list) option" where
  "vlq_decode acc [] = None"
| "vlq_decode acc (b # bs) =
     (if 128 \<le> unat b then vlq_decode (acc * 128 + (unat b - 128)) bs
      else Some (acc * 128 + unat b, bs))"

text \<open>The value a run of marked bytes adds to an accumulator; used to state what \<open>vlq_decode\<close> does
  on \<open>vlq_prefix\<close>.\<close>

fun vlq_value :: "nat \<Rightarrow> nat \<Rightarrow> nat" where
  "vlq_value acc n = (if n = 0 then acc else vlq_value acc (n div 128) * 128 + n mod 128)"

text \<open>Modelled from the spec: the 16-bit and 32-bit fields of the standard 12-byte RTP header (RTP driver, absent), in
  network byte order.\<close>

definition be16 :: "16 word \<Rightarrow> byte list" where
  "be16 w = [ucast (drop_bit 8 w), ucast w]"

definition be32 :: "32 word \<Rightarrow> byte list" where
  "be32 w = [ucast (drop_bit 24 w), ucast (drop_bit 16 w), ucast (drop_bit 8 w), ucast w]"

definition rd16 :: "byte \<Rightarrow> byte \<Rightarrow> 16 word" where
  "rd16 b0 b1 = push_bit 8 (ucast b0) OR ucast b1"

definition rd32 :: "byte \<Rightarrow> byte \<Rightarrow> byte \<Rightarrow> byte \<Rightarrow> 32 word" where
  "rd32 b0 b1 b2 b3 =
     push_bit 24 (ucast b0) OR push_bit 16 (ucast b1) OR push_bit 8 (ucast b2) OR ucast b3"

text \<open>Modelled from the spec: what the RTP transport takes from outside (RTP driver and message formatter, absent):
  the number that marks the MIDI payload type; how the length prefix of the command section is
  written and read (the specification says length-prefixed and no more); and the message
  formatter, \<open>encode(MidiCommand) -> bytes\<close> and \<open>decode(bytes) -> MidiCommand, bytesConsumed\<close>.\<close>

record 'c wire_codec =
  payload_type :: byte
  put_length :: "nat \<Rightarrow> byte list"
  get_length :: "byte list \<Rightarrow> (nat \<times> byte list) option"
  put_command :: "'c \<Rightarrow> byte list"
  get_command :: "byte list \<Rightarrow> ('c \<times> nat) option"

text \<open>Modelled from the spec: the contract of these collaborators (absent): the payload type has seven bits, a length
  that was written is read back, with the bytes after it, and a command that the formatter wrote
  is read back, with the number of bytes it took.\<close>

definition codec_ok :: "'c wire_codec \<Rightarrow> bool" where
  "codec_ok K \<longleftrightarrow>
     payload_type K \<le> 0x7f \<and>
     (\<forall>n r. get_length K (put_length K n @ r) = Some (n, r)) \<and>
     (\<forall>c r. get_command K (put_command K c @ r) = Some (c, length (put_command K c)))"

text \<open>Modelled from the spec: the failure of RTP decoding (RTP driver, absent): a packet whose version or payload type
  is wrong is dropped with \<open>ProtocolError\<close>.\<close>

datatype decode_error = ProtocolError

text \<open>Modelled from the spec: a decoded RTP packet (RTP driver, absent): sequence number, timestamp, SSRC, the ordered
  commands with their delta-times, and whether parsing was cut short by a malformed command.\<close>

record 'c rtp_packet =
  pkt_seq :: "16 word"
  pkt_timestamp :: "32 word"
  pkt_ssrc :: "32 word"
  pkt_commands :: "(nat \<times> 'c) list"
  pkt_truncated :: bool

text \<open>Modelled from the spec: the MIDI command section of a packet (RTP driver, absent): for each command its
  delta-time, variable-length encoded, then the bytes of the command as the formatter gives them.\<close>

definition command_section :: "'c wire_codec \<Rightarrow> (nat \<times> 'c) list \<Rightarrow> byte list" where
  "command_section K cmds = concat (map (\<lambda>(dt, c). vlq_encode dt @ put_command K c) cmds)"

text \<open>Modelled from the spec: Encode of the RTP transport (RTP driver, absent): version 2 (the top two bits of the
  first byte), marker bit set and payload type, sequence number, timestamp, SSRC, then the
  length-prefixed command section.\<close>

definition rtp_encode ::
  "'c wire_codec \<Rightarrow> 16 word \<Rightarrow> 32 word \<Rightarrow> 32 word \<Rightarrow> (nat \<times> 'c) list \<Rightarrow> byte list" where
  "rtp_encode K seq ts ssrc cmds =
     [0x80, 0x80 OR payload_type K] @ be16 seq @ be32 ts @ be32 ssrc @
     put_length K (length (command_section K cmds)) @ command_section K cmds"

text \<open>Reading a delta-time takes at least one byte; the parser below ends for this reason.\<close>

lemma vlq_decode_shorter: "vlq_decode acc bs = Some (v, r) \<Longrightarrow> length r < length bs"
proof (induction bs arbitrary: acc)
  case Nil
  then show ?case by simp
next
  case (Cons b bs)
  show ?case
  proof (cases "128 \<le> unat b")
    case True
    with Cons.prems have "vlq_decode (acc * 128 + (unat b - 128)) bs = Some (v, r)" by simp
    then have "length r < length bs" by (rule Cons.IH)
    then show ?thesis by simp
  next
    case False
    with Cons.prems show ?thesis by simp
  qed
qed

text \<open>Modelled from the spec: parsing the command section (RTP driver, absent): commands are read until the bytes run
  out; a malformed delta-time or command stops the parsing there, keeps the commands read so
  far and reports the fault (the flag).\<close>

function parse_commands :: "'c wire_codec \<Rightarrow> byte list \<Rightarrow> (nat \<times> 'c) list \<times> bool" where
  "parse_commands K bytes =
     (if bytes = [] then ([], False)
      else case vlq_decode 0 bytes of
        None \<Rightarrow> ([], True)
      | Some (dt, r) \<Rightarrow>
          (case get_command K r of
             None \<Rightarrow> ([], True)
           | Some (c, n) \<Rightarrow>
               if length r < n then ([], True)
               else (case parse_commands K (drop n r) of (cs, e) \<Rightarrow> ((dt, c) # cs, e))))"
  by pat_completeness auto
termination
  by (relation "measure (\<lambda>(K, bytes). length bytes)") (auto dest!: vlq_decode_shorter)

text \<open>Modelled from the spec: Decode of the RTP transport (RTP driver, absent): check the version and the payload
  type, read sequence number, timestamp and SSRC, then parse the command section.\<close>

definition rtp_decode :: "'c wire_codec \<Rightarrow> byte list \<Rightarrow> decode_error + 'c rtp_packet" where
  "rtp_decode K bytes =
     (case bytes of
        v # p # s0 # s1 # t0 # t1 # t2 # t3 # c0 # c1 # c2 # c3 # rest \<Rightarrow>
          if drop_bit 6 v \<noteq> 2 \<or> p AND 0x7f \<noteq> payload_type K then Inl ProtocolError
          else
            (let (cmds, e) =
               (case get_length K rest of
                  None \<Rightarrow> ([], True)
                | Some (n, body) \<Rightarrow>
                    if length body < n then ([], True) else parse_commands K (take n body))
             in Inr \<lparr>pkt_seq = rd16 s0 s1, pkt_timestamp = rd32 t0 t1 t2 t3,
                     pkt_ssrc = rd32 c0 c1 c2 c3, pkt_commands = cmds, pkt_truncated = e\<rparr>)
      | _ \<Rightarrow> Inl ProtocolError)"

text \<open>Modelled from the spec: the sending side of a session's transport (RTP driver, absent): the local SSRC and the
  current send sequence number, 16 bits wide.\<close>

record transport =
  local_ssrc :: "32 word"
  send_seq :: "16 word"

text \<open>Modelled from the spec: sending one packet (RTP driver, absent): the packet carries the current sequence number
  (pre-increment) and the timestamp \<open>now\<close> taken from the clock; the counter then goes up by one
  and wraps at 16 bits.\<close>

definition transport_send ::
  "'c wire_codec \<Rightarrow> 32 word \<Rightarrow> (nat \<times> 'c) list \<Rightarrow> transport \<Rightarrow> byte list \<times> transport" where
  "transport_send K now cmds t =
     (rtp_encode K (send_seq t) now (local_ssrc t) cmds, t\<lparr>send_seq := send_seq t + 1\<rparr>)"

text \<open>Modelled from the spec: sending packets one after the other (RTP driver, absent).\<close>

fun send_packets ::
  "'c wire_codec \<Rightarrow> (32 word \<times> (nat \<times> 'c) list) list \<Rightarrow> transport \<Rightarrow> byte list list \<times> transport" where
  "send_packets K [] t = ([], t)"
| "send_packets K (p # ps) t =
     (case transport_send K (fst p) (snd p) t of
        (d, t') \<Rightarrow> (case send_packets K ps t' of (ds, t'') \<Rightarrow> (d # ds, t'')))"

text \<open>A formatter for three-byte channel messages, with the length written as a variable-length
  quantity: one instance of the collaborators.\<close>

definition example_codec :: "(byte \<times> byte \<times> byte) wire_codec" where
  "example_codec =
     \<lparr>payload_type = 97, put_length = vlq_encode, get_length = vlq_decode 0,
      put_command = (\<lambda>(a, b, c). [a, b, c]),
      get_command = (\<lambda>bs. case bs of a # b # c # r \<Rightarrow> Some ((a, b, c), 3) | _ \<Rightarrow> None)\<rparr>"


subsection \<open>Clock\<close>

text \<open>Modelled from the spec: timestamps of the clock (clock.c, absent), in ticks of 100 microseconds, 64 bits wide.\<close>

type_synonym ticks = "64 word"



text \<open>Modelled from the spec: the latency the completing peer computes (clock.c, absent):
  \<open>((t3 - t1) - (t2 - t1)) / 2\<close>.\<close>

definition sync_latency :: "ticks \<Rightarrow> ticks \<Rightarrow> ticks \<Rightarrow> ticks" where
  "sync_latency t1 t2 t3 = ((t3 - t1) - (t2 - t1)) div 2"

text \<open>Modelled from the spec: the offset the completing peer computes (clock.c, absent): \<open>t2 - t1 - latency\<close>.\<close>

definition sync_offset :: "ticks \<Rightarrow> ticks \<Rightarrow> ticks \<Rightarrow> ticks" where
  "sync_offset t1 t2 t3 = t2 - t1 - sync_latency t1 t2 t3"


text \<open>Synthetic timestamps of one exchange over a network with one-way delay \<open>d\<close> in both
  directions, between a local clock and a peer clock that is ahead by the skew \<open>s\<close>: the
  initiator sends at \<open>t1\<close> (local clock), the peer answers on arrival, \<open>d\<close> later, at
  \<open>t1 + d + s\<close> on its own clock, and the answer arrives at \<open>t1 + 2 * d\<close> on the local clock.\<close>

definition synthetic_timestamps :: "ticks \<Rightarrow> ticks \<Rightarrow> ticks \<Rightarrow> ticks \<times> ticks \<times> ticks" where
  "synthetic_timestamps t1 d s = (t1, t1 + d + s, t1 + 2 * d)"


subsection \<open>AppleMIDI session\<close>

text \<open>Modelled from the spec: the states of a session (AppleMIDI driver, absent).\<close>

datatype session_state =
  Idle | Inviting | Invited | SyncPending | Established | Ending | Closed
  | Listening | AcceptingInvite

text \<open>Modelled from the spec: the control packets of the handshake (AppleMIDI driver, absent): invitation and
  acceptance carry the initiator token, the sender's SSRC and a name; a rejection carries the
  token; bye ends the session.\<close>

datatype control_packet =
    Invitation "32 word" "32 word" string
  | Accepted "32 word" "32 word" string
  | Rejected "32 word"
  | Bye

text \<open>Modelled from the spec: a session (AppleMIDI driver, absent): its state, the local SSRC, the initiator token of
  the invitation in flight, and the retry counter.\<close>

record session =
  state :: session_state
  session_ssrc :: "32 word"
  initiator_token :: "32 word"
  retries :: nat

text \<open>Modelled from the spec: \<open>Idle --invite()--> Inviting\<close> (AppleMIDI driver, absent): the invitation is emitted
  with the initiator token and the local SSRC.\<close>

definition invite :: "32 word \<Rightarrow> string \<Rightarrow> session \<Rightarrow> control_packet option \<times> session" where
  "invite token name s =
     (if state s = Idle
      then (Some (Invitation token (session_ssrc s) name),
            s\<lparr>state := Inviting, initiator_token := token, retries := 0\<rparr>)
      else (None, s))"

text \<open>Modelled from the spec: the session on receipt of a control packet (AppleMIDI driver, absent): bye closes the
  session from any state; an acceptance or a rejection counts only in state Inviting and only
  with the token that was sent (anything else is dropped, the state stays); a listening session
  that is invited goes on to accept.\<close>

fun on_control_packet :: "control_packet \<Rightarrow> session \<Rightarrow> session" where
  "on_control_packet Bye s = s\<lparr>state := Closed\<rparr>"
| "on_control_packet (Accepted token ssrc name) s =
     (if state s = Inviting \<and> token = initiator_token s then s\<lparr>state := Invited\<rparr> else s)"
| "on_control_packet (Rejected token) s =
     (if state s = Inviting \<and> token = initiator_token s then s\<lparr>state := Closed\<rparr> else s)"
| "on_control_packet (Invitation token ssrc name) s =
     (if state s = Listening then s\<lparr>state := AcceptingInvite, initiator_token := token\<rparr> else s)"

text \<open>Modelled from the spec: \<open>Invited --(auto)--> SyncPending\<close> (AppleMIDI driver, absent).\<close>

definition begin_sync :: "session \<Rightarrow> session" where
  "begin_sync s = (if state s = Invited then s\<lparr>state := SyncPending\<rparr> else s)"

text \<open>An idle session.\<close>

definition example_session :: session where
  "example_session = \<lparr>state = Idle, session_ssrc = 0x1234, initiator_token = 0, retries = 0\<rparr>"


subsection \<open>Message queue\<close>

text \<open>Modelled from the spec: the message queue (message_queue.c, absent): the queued entries in the order of their
  enqueueing, each with the session it is for.\<close>

type_synonym 'c queue = "(nat \<times> 'c) list"

text \<open>Modelled from the spec: the one failure of enqueue (message_queue.c, absent).\<close>

datatype queue_error = InvalidArgument

text \<open>Modelled from the spec: \<open>enqueue(session, commandSpan)\<close> (message_queue.c, absent): fails with
  \<open>InvalidArgument\<close> for a session that is Closed, else appends the entry.\<close>

definition enqueue :: "session_state \<Rightarrow> nat \<Rightarrow> 'c \<Rightarrow> 'c queue \<Rightarrow> queue_error + 'c queue" where
  "enqueue st sid c q = (if st = Closed then Inl InvalidArgument else Inr (q @ [(sid, c)]))"

text \<open>Modelled from the spec: filling one outbound packet for session \<open>sid\<close> (message_queue.c, absent): the first
  \<open>cap\<close> entries queued for the session are taken, in order; the rest of the queue stays as it
  is. The cap counts commands.\<close>

fun flush :: "nat \<Rightarrow> nat \<Rightarrow> 'c queue \<Rightarrow> 'c list \<times> 'c queue" where
  "flush sid 0 q = ([], q)"
| "flush sid (Suc n) [] = ([], [])"
| "flush sid (Suc n) (e # q) =
     (if fst e = sid then (case flush sid n q of (out, r) \<Rightarrow> (snd e # out, r))
      else (case flush sid (Suc n) q of (out, r) \<Rightarrow> (out, e # r)))"

text \<open>Modelled from the spec: one run-loop tick over the sessions \<open>ss\<close> (message_queue.c, absent): one packet for
  each.\<close>

fun tick_sessions :: "nat \<Rightarrow> nat list \<Rightarrow> 'c queue \<Rightarrow> (nat \<times> 'c list) list \<times> 'c queue" where
  "tick_sessions cap [] q = ([], q)"
| "tick_sessions cap (s # ss) q =
     (case flush s cap q of (out, r) \<Rightarrow>
        (case tick_sessions cap ss r of (ps, r') \<Rightarrow> ((s, out) # ps, r')))"

text \<open>Modelled from the spec: one run-loop tick (message_queue.c, absent): one packet for each session that has
  entries queued.\<close>

definition tick :: "nat \<Rightarrow> 'c queue \<Rightarrow> (nat \<times> 'c list) list \<times> 'c queue" where
  "tick cap q = tick_sessions cap (remdups (map fst q)) q"

text \<open>Modelled from the spec: \<open>n\<close> successive ticks (message_queue.c and runloop.c, absent): the packets sent, in
  order, and the queue left.\<close>

fun run_ticks :: "nat \<Rightarrow> nat \<Rightarrow> 'c queue \<Rightarrow> (nat \<times> 'c list) list \<times> 'c queue" where
  "run_ticks cap 0 q = ([], q)"
| "run_ticks cap (Suc n) q =
     (case tick cap q of (ps, r) \<Rightarrow>
        (case run_ticks cap n r of (ps', r') \<Rightarrow> (ps @ ps', r')))"

text \<open>The commands queued for a session, in order, and the commands sent to a session, in order.\<close>

definition pending_for :: "nat \<Rightarrow> 'c queue \<Rightarrow> 'c list" where
  "pending_for s q = map snd (filter (\<lambda>e. fst e = s) q)"

definition sent_for :: "nat \<Rightarrow> (nat \<times> 'c list) list \<Rightarrow> 'c list" where
  "sent_for s ps = concat (map snd (filter (\<lambda>p. fst p = s) ps))"


section \<open>Properties of the value macros\<close>

lemma mask7: "(0x7f :: c_int) = mask 7"
  by (simp add: mask_eq_exp_minus_1)

lemma mask4: "(0xf :: c_int) = mask 4"
  by (simp add: mask_eq_exp_minus_1)

lemma bit_below_7:
  assumes "(x::c_int) \<le> 0x7f" and "bit x n"
  shows "n < 7"
proof -
  have "x < 2 ^ 7"
    using assms(1) by (simp add: word_le_nat_alt word_less_nat_alt)
  then have "x AND mask 7 = x"
    by (rule less_mask_eq)
  then have "take_bit 7 x = x"
    by (simp add: take_bit_eq_mask)
  then have "bit (take_bit 7 x) n"
    using assms(2) by simp
  then show ?thesis
    by (simp add: bit_take_bit_iff)
qed

lemma bit_below_4:
  assumes "(x::c_int) \<le> 0xf" and "bit x n"
  shows "n < 4"
proof -
  have "x < 2 ^ 4"
    using assms(1) by (simp add: word_le_nat_alt word_less_nat_alt)
  then have "x AND mask 4 = x"
    by (rule less_mask_eq)
  then have "take_bit 4 x = x"
    by (simp add: take_bit_eq_mask)
  then have "bit (take_bit 4 x) n"
    using assms(2) by simp
  then show ?thesis
    by (simp add: bit_take_bit_iff)
qed

lemma MIDI_MSB_LONG_VALUE:
  "m \<le> 0x7f \<Longrightarrow> l \<le> 0x7f \<Longrightarrow> MIDI_MSB (MIDI_LONG_VALUE m l) = m"
  unfolding MIDI_MSB_def MIDI_LONG_VALUE_def mask7
  by (rule bit_word_eqI) (auto simp: bit_simps dest: bit_below_7 [unfolded mask7] bit_imp_le_length)

lemma MIDI_LSB_LONG_VALUE:
  "m \<le> 0x7f \<Longrightarrow> l \<le> 0x7f \<Longrightarrow> MIDI_LSB (MIDI_LONG_VALUE m l) = l"
  unfolding MIDI_LSB_def MIDI_LONG_VALUE_def mask7
  by (rule bit_word_eqI) (auto simp: bit_simps dest: bit_below_7 [unfolded mask7] bit_imp_le_length)

lemma MIDI_HIGH_NIBBLE_VALUE:
  "h \<le> 0xf \<Longrightarrow> l \<le> 0xf \<Longrightarrow> MIDI_HIGH_NIBBLE (MIDI_NIBBLE_VALUE h l) = h"
  unfolding MIDI_HIGH_NIBBLE_def MIDI_NIBBLE_VALUE_def mask4
  by (rule bit_word_eqI) (auto simp: bit_simps dest: bit_below_4 [unfolded mask4] bit_imp_le_length)

lemma MIDI_LOW_NIBBLE_VALUE:
  "h \<le> 0xf \<Longrightarrow> l \<le> 0xf \<Longrightarrow> MIDI_LOW_NIBBLE (MIDI_NIBBLE_VALUE h l) = l"
  unfolding MIDI_LOW_NIBBLE_def MIDI_NIBBLE_VALUE_def mask4
  by (rule bit_word_eqI) (auto simp: bit_simps dest: bit_below_4 [unfolded mask4] bit_imp_le_length)

text \<open>
  Claim C10. For all 7-bit values \<open>m\<close> and \<open>l\<close>, the most significant and least
  significant halves read back from \<open>MIDI_LONG_VALUE m l\<close> are \<open>m\<close> and \<open>l\<close>; for all
  4-bit values \<open>h\<close> and \<open>k\<close>, the high and low nibbles read back from
  \<open>MIDI_NIBBLE_VALUE h k\<close> are \<open>h\<close> and \<open>k\<close>.
\<close>

theorem value_macros_roundtrip:
  assumes "m \<le> 0x7f" and "l \<le> 0x7f" and "h \<le> 0xf" and "k \<le> 0xf"
  shows "MIDI_MSB (MIDI_LONG_VALUE m l) = m \<and> MIDI_LSB (MIDI_LONG_VALUE m l) = l \<and>
         MIDI_HIGH_NIBBLE (MIDI_NIBBLE_VALUE h k) = h \<and>
         MIDI_LOW_NIBBLE (MIDI_NIBBLE_VALUE h k) = k"
  using assms
  by (simp add: MIDI_MSB_LONG_VALUE MIDI_LSB_LONG_VALUE MIDI_HIGH_NIBBLE_VALUE
      MIDI_LOW_NIBBLE_VALUE)

theorem value_macros_roundtrip_witness:
  "(0x45 :: c_int) \<le> 0x7f \<and> (0x7f :: c_int) \<le> 0x7f \<and> (0x9 :: c_int) \<le> 0xf \<and>
   (0x3 :: c_int) \<le> 0xf \<and>
   MIDI_MSB (MIDI_LONG_VALUE 0x45 0x7f) = 0x45 \<and> MIDI_LSB (MIDI_LONG_VALUE 0x45 0x7f) = 0x7f \<and>
   MIDI_HIGH_NIBBLE (MIDI_NIBBLE_VALUE 0x9 0x3) = 0x9 \<and>
   MIDI_LOW_NIBBLE (MIDI_NIBBLE_VALUE 0x9 0x3) = 0x3"
  using value_macros_roundtrip [of "0x45" "0x7f" "0x9" "0x3"] by simp

section \<open>Properties of the list container\<close>

subsection \<open>Allocation failure\<close>
lemma MIDIListAdd_without_memory:
  "list \<noteq> NULL \<Longrightarrow> x \<noteq> NULL \<Longrightarrow> MIDIListAdd list x NULL st = Inl NullDereference"
  by (simp add: MIDIListAdd_def)

lemma MIDIListCreate_alloc_failure:
  "MIDIListCreate retain_fn release_fn NULL st = (NULL, st\<lparr>MIDIErrorNumber := ENOMEM\<rparr>)"
  by (simp add: MIDIListCreate_def MIDIPrecondFailed_def)


text \<open>
  Claim C1. When the allocation inside \<^verbatim>\<open>MIDIListAdd\<close> fails, the call should return a
  nonzero error and leave the list unchanged. The code does not test what \<^verbatim>\<open>malloc\<close>
  returned: on the example memory (a list at address 1), adding the item 5 when \<^verbatim>\<open>malloc\<close>
  returns \<open>NULL\<close> writes through \<open>NULL\<close>, and so it does for every list and item that are
  not \<open>NULL\<close> (\<open>MIDIListAdd_without_memory\<close>). \<^verbatim>\<open>MIDIListCreate\<close> does test it: it returns
  \<open>NULL\<close>, sets the error number to \<open>ENOMEM\<close> and creates nothing.
\<close>

theorem MIDIListAdd_alloc_failure_faults:
  "MIDIListAdd 1 5 NULL example_memory = Inl NullDereference \<and>
   MIDIListCreate 7 8 NULL example_memory = (NULL, example_memory\<lparr>MIDIErrorNumber := ENOMEM\<rparr>)"
  by (simp add: MIDIListAdd_def MIDIListCreate_def MIDIPrecondFailed_def)


subsection \<open>Failed preconditions\<close>

text \<open>
  Claim C2. \<^verbatim>\<open>MIDIListAdd\<close>, \<^verbatim>\<open>MIDIListRemove\<close> and \<^verbatim>\<open>MIDIListApply\<close> called with a list
  that is \<open>NULL\<close> return \<open>EFAULT\<close>; called with a list that is not \<open>NULL\<close> and an item
  (or function) that is \<open>NULL\<close> they return \<open>EINVAL\<close>. Both codes are nonzero, the
  code returned is stored in \<open>MIDIErrorNumber\<close>, and the memory after the call differs from
  the memory before it in \<open>MIDIErrorNumber\<close> only: no list, no entry and no hook call is
  added or changed.
\<close>

theorem precondition_failures:
  "(list = NULL \<longrightarrow>
      MIDIListAdd list x m st = Inr (EFAULT, st\<lparr>MIDIErrorNumber := EFAULT\<rparr>) \<and>
      MIDIListRemove list x st = Some (Inr (EFAULT, st\<lparr>MIDIErrorNumber := EFAULT\<rparr>)) \<and>
      MIDIListApply list info func fn st = Some (Inr (EFAULT, st\<lparr>MIDIErrorNumber := EFAULT\<rparr>))) \<and>
   (list \<noteq> NULL \<and> x = NULL \<longrightarrow>
      MIDIListAdd list x m st = Inr (EINVAL, st\<lparr>MIDIErrorNumber := EINVAL\<rparr>) \<and>
      MIDIListRemove list x st = Some (Inr (EINVAL, st\<lparr>MIDIErrorNumber := EINVAL\<rparr>))) \<and>
   (list \<noteq> NULL \<and> func = NULL \<longrightarrow>
      MIDIListApply list info func fn st = Some (Inr (EINVAL, st\<lparr>MIDIErrorNumber := EINVAL\<rparr>))) \<and>
   EFAULT \<noteq> 0 \<and> EINVAL \<noteq> 0 \<and>
   list_mem (st\<lparr>MIDIErrorNumber := e\<rparr>) = list_mem st \<and>
   entry_mem (st\<lparr>MIDIErrorNumber := e\<rparr>) = entry_mem st \<and>
   hook_calls (st\<lparr>MIDIErrorNumber := e\<rparr>) = hook_calls st \<and>
   MIDIErrorNumber (st\<lparr>MIDIErrorNumber := e\<rparr>) = e"
  by (simp add: MIDIListAdd_def MIDIListRemove_def MIDIListApply_def MIDIPrecondFailed_def
      EFAULT_def EINVAL_def)

theorem precondition_failures_witness:
  "MIDIListAdd NULL 5 20 example_memory = Inr (14, example_memory\<lparr>MIDIErrorNumber := 14\<rparr>) \<and>
   MIDIListRemove NULL 5 example_memory = Some (Inr (14, example_memory\<lparr>MIDIErrorNumber := 14\<rparr>)) \<and>
   MIDIListApply NULL 3 9 (\<lambda>x i. 1) example_memory
     = Some (Inr (14, example_memory\<lparr>MIDIErrorNumber := 14\<rparr>)) \<and>
   MIDIListAdd 1 NULL 20 example_memory = Inr (22, example_memory\<lparr>MIDIErrorNumber := 22\<rparr>) \<and>
   MIDIListRemove 1 NULL example_memory = Some (Inr (22, example_memory\<lparr>MIDIErrorNumber := 22\<rparr>)) \<and>
   MIDIListApply 1 3 NULL (\<lambda>x i. 1) example_memory
     = Some (Inr (22, example_memory\<lparr>MIDIErrorNumber := 22\<rparr>)) \<and>
   list_mem (example_memory\<lparr>MIDIErrorNumber := 22\<rparr>) 1
     = Some \<lparr>refs = 1, retain = 7, release = 8, data = 10\<rparr>"
  using precondition_failures [of NULL 5 20 example_memory 3 9 "\<lambda>x i. 1" 14]
    precondition_failures [of 1 NULL 20 example_memory 3 NULL "\<lambda>x i. 1" 22]
  by (simp add: EFAULT_def EINVAL_def example_memory_def)

subsection \<open>Linked lists in the entry heap\<close>

lemma chain_ConsE:
  assumes "chain h p (c # cs)"
  obtains e where "p = fst c" and "p \<noteq> NULL" and "h p = Some e" and "item e = snd c"
    and "chain h (nxt e) cs"
  using assms by (auto split: option.splits)

lemma chain_ConsI:
  "p = fst c \<Longrightarrow> p \<noteq> NULL \<Longrightarrow> h p = Some e \<Longrightarrow> item e = snd c \<Longrightarrow> chain h (nxt e) cs
   \<Longrightarrow> chain h p (c # cs)"
  by simp

declare chain.simps(2) [simp del]

lemma chain_unique: "chain h p cs \<Longrightarrow> chain h p ds \<Longrightarrow> cs = ds"
proof (induction cs arbitrary: p ds)
  case Nil
  then show ?case by (cases ds) (auto elim: chain_ConsE)
next
  case (Cons c cs)
  from Cons.prems(1) obtain e where e: "p = fst c" "p \<noteq> NULL" "h p = Some e" "item e = snd c"
    "chain h (nxt e) cs" by (rule chain_ConsE)
  show ?case
  proof (cases ds)
    case Nil
    with Cons.prems(2) e(2) show ?thesis by simp
  next
    case (Cons d ds')
    with Cons.prems(2) obtain e' where e': "p = fst d" "h p = Some e'" "item e' = snd d"
      "chain h (nxt e') ds'" by (auto elim: chain_ConsE)
    from e e' have "c = d" "e' = e" by (simp_all add: prod_eq_iff)
    with e(5) e'(4) Cons.IH have "cs = ds'" by blast
    with \<open>c = d\<close> Cons show ?thesis by simp
  qed
qed

lemma chain_suffix_at:
  "chain h p (cs @ d # ds) \<Longrightarrow> chain h (fst d) (d # ds)"
proof (induction cs arbitrary: p)
  case Nil
  then show ?case by (auto elim: chain_ConsE)
next
  case (Cons c cs)
  from Cons.prems have "chain h p (c # (cs @ d # ds))" by simp
  then obtain e :: MIDIListEntry where "chain h (nxt e) (cs @ d # ds)" by (rule chain_ConsE)
  then show ?case by (rule Cons.IH)
qed

lemma chain_head_notin_tail:
  assumes "chain h p (c # cs)"
  shows "fst c \<notin> fst ` set cs"
proof
  assume "fst c \<in> fst ` set cs"
  then obtain d where d: "d \<in> set cs" "fst d = fst c" by auto
  then obtain us vs where split: "cs = us @ d # vs" by (meson split_list)
  from assms have "chain h (fst c) (c # cs)" by (auto elim: chain_ConsE)
  moreover from assms split have "chain h (fst d) (d # vs)"
    using chain_suffix_at [of h p "c # us" d vs] by simp
  ultimately have "c # cs = d # vs" using d(2) chain_unique by metis
  with split show False by simp
qed

lemma chain_distinct: "chain h p cs \<Longrightarrow> distinct (map fst cs)"
proof (induction cs arbitrary: p)
  case Nil
  show ?case by simp
next
  case (Cons c cs)
  from Cons.prems have "fst c \<notin> fst ` set cs" by (rule chain_head_notin_tail)
  moreover from Cons.prems obtain e :: MIDIListEntry where "chain h (nxt e) cs" by (rule chain_ConsE)
  ultimately show ?case using Cons.IH by simp
qed

lemma chain_frame:
  "chain h p cs \<Longrightarrow> (\<forall>a \<in> fst ` set cs. h' a = h a) \<Longrightarrow> chain h' p cs"
proof (induction cs arbitrary: p)
  case Nil
  then show ?case by simp
next
  case (Cons c cs)
  from Cons.prems(1) obtain e where e: "p = fst c" "p \<noteq> NULL" "h p = Some e" "item e = snd c"
    "chain h (nxt e) cs" by (rule chain_ConsE)
  from Cons.prems(2) e have "h' p = Some e" by simp
  moreover from Cons.prems(2) e(5) have "chain h' (nxt e) cs" by (intro Cons.IH) auto
  ultimately show ?case using e by (intro chain_ConsI)
qed

lemma chain_allocated: "chain h p cs \<Longrightarrow> fst ` set cs \<subseteq> dom h"
proof (induction cs arbitrary: p)
  case Nil
  then show ?case by simp
next
  case (Cons c cs)
  from Cons.prems obtain e where e: "p = fst c" "h p = Some e" "chain h (nxt e) cs"
    by (rule chain_ConsE)
  with Cons.IH show ?case by auto
qed

lemma chain_no_NULL: "chain h p cs \<Longrightarrow> NULL \<notin> fst ` set cs"
proof (induction cs arbitrary: p)
  case Nil
  then show ?case by simp
next
  case (Cons c cs)
  from Cons.prems obtain e :: MIDIListEntry where e: "p = fst c" "p \<noteq> NULL" "chain h (nxt e) cs"
    by (rule chain_ConsE)
  with Cons.IH [OF e(3)] show ?case by auto
qed

subsection \<open>The loop of MIDIListRemove\<close>

lemma load_loc_ListData:
  "load_loc st (ListData l) = Inr p \<longleftrightarrow> l \<noteq> NULL \<and> (\<exists>L. list_mem st l = Some L \<and> data L = p)"
  by (auto simp: load_loc_def load_list_def split: option.splits)

lemma load_loc_EntryNext:
  "load_loc st (EntryNext q) = Inr p \<longleftrightarrow> q \<noteq> NULL \<and> (\<exists>E. entry_mem st q = Some E \<and> nxt E = p)"
  by (auto simp: load_loc_def load_entry_def split: option.splits)

lemma load_entry_Some: "p \<noteq> NULL \<Longrightarrow> entry_mem st p = Some e \<Longrightarrow> load_entry st p = Inr e"
  by (simp add: load_entry_def)

lemma load_list_Some: "p \<noteq> NULL \<Longrightarrow> list_mem st p = Some L \<Longrightarrow> load_list st p = Inr L"
  by (simp add: load_list_def)

lemma remove_unlink_step:
  assumes "entry \<noteq> NULL" and "entry_mem st entry = Some e" and "item e = x" and "x \<noteq> NULL"
    and "list \<noteq> NULL" and "list_mem st list = Some L"
    and "load_loc st eptr = Inr entry"
    and "case eptr of ListData l \<Rightarrow> l = list | EntryNext q \<Rightarrow> q \<noteq> entry"
  shows "\<exists>st3. remove_loop list x eptr entry st = remove_loop list x eptr (nxt e) st3 \<and>
               unlink_post list L x eptr entry (nxt e) st st3"
proof (cases eptr)
  case (ListData l)
  with assms(8) have l: "l = list" by simp
  define st1 where "st1 = (if release L \<noteq> NULL
      then st\<lparr>hook_calls := hook_calls st @ [ReleaseCall list x]\<rparr> else st)"
  define st3 where "st3 = st1\<lparr>list_mem := (list_mem st)(list \<mapsto> L\<lparr>data := nxt e\<rparr>),
      entry_mem := (entry_mem st)(entry := None)\<rparr>"
  have "remove_loop list x eptr entry st = remove_loop list x eptr (nxt e) st3"
    using assms ListData l
    by (subst remove_loop.simps)
      (simp add: load_entry_def list_item_release_def load_list_def store_loc_def load_loc_def
        st3_def st1_def)
  moreover have "unlink_post list L x eptr entry (nxt e) st st3"
    using assms ListData l
    by (simp add: unlink_post_def st3_def st1_def released_def load_loc_ListData)
  ultimately show ?thesis by blast
next
  case (EntryNext q)
  with assms(8) have q: "q \<noteq> entry" by simp
  from assms(7) EntryNext obtain E where E: "q \<noteq> NULL" "entry_mem st q = Some E" "nxt E = entry"
    by (auto simp: load_loc_EntryNext)
  define st1 where "st1 = (if release L \<noteq> NULL
      then st\<lparr>hook_calls := hook_calls st @ [ReleaseCall list x]\<rparr> else st)"
  define st3 where "st3 = st1\<lparr>entry_mem := ((entry_mem st)(q \<mapsto> E\<lparr>nxt := nxt e\<rparr>))(entry := None)\<rparr>"
  have "remove_loop list x eptr entry st = remove_loop list x eptr (nxt e) st3"
    using assms EntryNext q E
    by (subst remove_loop.simps)
      (simp add: load_entry_def list_item_release_def load_list_def store_loc_def load_loc_def
        st3_def st1_def)
  moreover have "unlink_post list L x eptr entry (nxt e) st st3"
    using assms EntryNext q E
    by (simp add: unlink_post_def st3_def st1_def released_def load_loc_EntryNext)
  ultimately show ?thesis by blast
qed

lemma remove_loop_chain:
  assumes "chain (entry_mem st) entry cs"
    and "list \<noteq> NULL" and "list_mem st list = Some L" and "x \<noteq> NULL"
    and "load_loc st eptr = Inr entry"
    and "case eptr of ListData l \<Rightarrow> l = list | EntryNext q \<Rightarrow> q \<notin> fst ` set cs"
  shows "\<exists>st'. remove_loop list x eptr entry st = Some (Inr st') \<and>
               remove_post list L x eptr cs st st'"
  using assms
proof (induction cs arbitrary: eptr entry st L)
  case Nil
  then have "entry = NULL" by simp
  then have "remove_loop list x eptr entry st = Some (Inr st)"
    by (subst remove_loop.simps) simp
  moreover have "remove_post list L x eptr [] st st"
    using Nil \<open>entry = NULL\<close> by (auto simp: remove_post_def released_def)
  ultimately show ?case by blast
next
  case (Cons c cs)
  from Cons.prems(1) obtain e where e: "entry = fst c" "entry \<noteq> NULL"
    "entry_mem st entry = Some e" "item e = snd c" "chain (entry_mem st) (nxt e) cs"
    by (rule chain_ConsE)
  from Cons.prems(1) have notin: "fst c \<notin> fst ` set cs" by (rule chain_head_notin_tail)
  have le: "load_entry st entry = Inr e" using e by (simp add: load_entry_Some)
  show ?case
  proof (cases "snd c = x")
    case False
    have step: "remove_loop list x eptr entry st = remove_loop list x (EntryNext entry) (nxt e) st"
      using False e le by (subst remove_loop.simps) simp
    have "load_loc st (EntryNext entry) = Inr (nxt e)"
      using e by (simp add: load_loc_EntryNext)
    moreover have "case EntryNext entry of ListData l \<Rightarrow> l = list | EntryNext q \<Rightarrow> q \<notin> fst ` set cs"
      using notin e by simp
    ultimately obtain st' where st': "remove_loop list x (EntryNext entry) (nxt e) st = Some (Inr st')"
      "remove_post list L x (EntryNext entry) cs st st'"
      using Cons.IH [OF e(5) Cons.prems(2) Cons.prems(3) Cons.prems(4)] by blast
    from st'(2) obtain p'' where p'': "load_loc st' (EntryNext entry) = Inr p''"
      "chain (entry_mem st') p'' (filter (\<lambda>c. snd c \<noteq> x) cs)"
      unfolding remove_post_def by blast
    from st'(2) e(3) obtain E' where E': "entry_mem st' entry = Some E'" "item E' = item e"
      unfolding remove_post_def by blast
    from p''(1) E'(1) have "p'' = nxt E'" by (simp add: load_loc_EntryNext)
    with p''(2) have "chain (entry_mem st') (nxt E') (filter (\<lambda>c. snd c \<noteq> x) cs)" by simp
    with E' e have ch: "chain (entry_mem st') entry (c # filter (\<lambda>c. snd c \<noteq> x) cs)"
      by (intro chain_ConsI) simp_all
    have lm: "list_mem st' = list_mem st"
      using st'(2) unfolding remove_post_def by simp
    have ll: "load_loc st' eptr = Inr entry"
    proof (cases eptr)
      case (ListData l)
      with Cons.prems(5) lm show ?thesis by (simp add: load_loc_ListData)
    next
      case (EntryNext q)
      with Cons.prems(6) e(1) have "q \<notin> fst ` set cs" "q \<noteq> entry" by auto
      with st'(2) have "entry_mem st' q = entry_mem st q"
        unfolding remove_post_def by simp
      with Cons.prems(5) EntryNext show ?thesis by (simp add: load_loc_EntryNext)
    qed
    have "remove_post list L x eptr (c # cs) st st'"
      unfolding remove_post_def
    proof (intro conjI)
      show "hook_calls st' = hook_calls st @ released L list (filter (\<lambda>y. y = x) (map snd (c # cs)))"
        using st'(2) False unfolding remove_post_def by simp
      show "MIDIErrorNumber st' = MIDIErrorNumber st"
        using st'(2) unfolding remove_post_def by simp
      show "\<exists>p'. load_loc st' eptr = Inr p' \<and>
              chain (entry_mem st') p' (filter (\<lambda>c. snd c \<noteq> x) (c # cs))"
        using ll ch False by auto
      show "\<forall>a. a \<notin> fst ` set (c # cs) \<and> eptr \<noteq> EntryNext a \<longrightarrow> entry_mem st' a = entry_mem st a"
        using st'(2) e(1) unfolding remove_post_def by auto
      show "\<forall>a E. eptr = EntryNext a \<and> entry_mem st a = Some E \<longrightarrow>
              (\<exists>E'. entry_mem st' a = Some E' \<and> item E' = item E)"
      proof (intro allI impI)
        fix a E assume a: "eptr = EntryNext a \<and> entry_mem st a = Some E"
        with Cons.prems(6) e(1) have "a \<notin> fst ` set cs" "a \<noteq> entry" by auto
        with st'(2) have "entry_mem st' a = entry_mem st a"
          unfolding remove_post_def by simp
        with a show "\<exists>E'. entry_mem st' a = Some E' \<and> item E' = item E" by simp
      qed
      show "\<forall>c \<in> set (c # cs). snd c = x \<longrightarrow> entry_mem st' (fst c) = None"
        using st'(2) False unfolding remove_post_def by simp
      show "\<forall>l. l \<noteq> list \<longrightarrow> list_mem st' l = list_mem st l"
        using lm by simp
      show "\<exists>L'. list_mem st' list = Some L' \<and> refs L' = refs L \<and> retain L' = retain L \<and>
              release L' = release L"
        using lm Cons.prems(3) by simp
      show "eptr \<noteq> ListData list \<longrightarrow> list_mem st' = list_mem st"
        using lm by simp
    qed
    with step st'(1) show ?thesis by auto
  next
    case True
    have "case eptr of ListData l \<Rightarrow> l = list | EntryNext q \<Rightarrow> q \<noteq> entry"
      using Cons.prems(6) e(1) by (auto split: loc.splits)
    then obtain st3 where step: "remove_loop list x eptr entry st = remove_loop list x eptr (nxt e) st3"
      and u: "unlink_post list L x eptr entry (nxt e) st st3"
      using remove_unlink_step [of entry st e x list L eptr] e(2) e(3) e(4) True Cons.prems(2-5)
      by blast
    from u obtain L3 where L3: "list_mem st3 list = Some L3" "refs L3 = refs L"
      "retain L3 = retain L" "release L3 = release L"
      unfolding unlink_post_def by blast
    have entry_neq: "eptr \<noteq> EntryNext entry"
      using Cons.prems(6) e(1) by auto
    have same: "\<forall>a \<in> fst ` set cs. entry_mem st3 a = entry_mem st a"
    proof
      fix a assume a: "a \<in> fst ` set cs"
      with notin e(1) have "a \<noteq> entry" by metis
      moreover have "eptr \<noteq> EntryNext a"
      proof
        assume "eptr = EntryNext a"
        with Cons.prems(6) have "a \<notin> fst ` set (c # cs)" by simp
        with a show False by simp
      qed
      ultimately show "entry_mem st3 a = entry_mem st a"
        using u unfolding unlink_post_def by simp
    qed
    with e(5) have ch3: "chain (entry_mem st3) (nxt e) cs"
      by (rule chain_frame)
    have ll3: "load_loc st3 eptr = Inr (nxt e)"
      using u unfolding unlink_post_def by simp
    have ok3: "case eptr of ListData l \<Rightarrow> l = list | EntryNext q \<Rightarrow> q \<notin> fst ` set cs"
      using Cons.prems(6) by (auto split: loc.splits)
    obtain st' where st': "remove_loop list x eptr (nxt e) st3 = Some (Inr st')"
      "remove_post list L3 x eptr cs st3 st'"
      using Cons.IH [OF ch3 Cons.prems(2) L3(1) Cons.prems(4) ll3 ok3] by blast
    have rel3: "released L3 list ys = released L list ys" for ys
      using L3(4) by (simp add: released_def)
    have "remove_post list L x eptr (c # cs) st st'"
      unfolding remove_post_def
    proof (intro conjI)
      show "hook_calls st' = hook_calls st @ released L list (filter (\<lambda>y. y = x) (map snd (c # cs)))"
        using st'(2) u True rel3 unfolding remove_post_def unlink_post_def
        by (simp add: released_def)
      show "MIDIErrorNumber st' = MIDIErrorNumber st"
        using st'(2) u unfolding remove_post_def unlink_post_def by simp
      show "\<exists>p'. load_loc st' eptr = Inr p' \<and>
              chain (entry_mem st') p' (filter (\<lambda>c. snd c \<noteq> x) (c # cs))"
        using st'(2) True unfolding remove_post_def by simp
      show "\<forall>a. a \<notin> fst ` set (c # cs) \<and> eptr \<noteq> EntryNext a \<longrightarrow> entry_mem st' a = entry_mem st a"
        using st'(2) u e(1) unfolding remove_post_def unlink_post_def by auto
      show "\<forall>a E. eptr = EntryNext a \<and> entry_mem st a = Some E \<longrightarrow>
              (\<exists>E'. entry_mem st' a = Some E' \<and> item E' = item E)"
      proof (intro allI impI)
        fix a E assume a: "eptr = EntryNext a \<and> entry_mem st a = Some E"
        with u obtain E3 where E3: "entry_mem st3 a = Some E3" "item E3 = item E"
          unfolding unlink_post_def by blast
        with st'(2) a obtain E' where "entry_mem st' a = Some E'" "item E' = item E3"
          unfolding remove_post_def by blast
        with E3 show "\<exists>E'. entry_mem st' a = Some E' \<and> item E' = item E" by simp
      qed
      have "entry_mem st' entry = entry_mem st3 entry"
        using st'(2) notin e(1) entry_neq unfolding remove_post_def by simp
      also have "\<dots> = None"
        using u unfolding unlink_post_def by simp
      finally show "\<forall>c \<in> set (c # cs). snd c = x \<longrightarrow> entry_mem st' (fst c) = None"
        using st'(2) e(1) unfolding remove_post_def by simp
      show "\<forall>l. l \<noteq> list \<longrightarrow> list_mem st' l = list_mem st l"
        using st'(2) u unfolding remove_post_def unlink_post_def by simp
      show "\<exists>L'. list_mem st' list = Some L' \<and> refs L' = refs L \<and> retain L' = retain L \<and>
              release L' = release L"
        using st'(2) L3 unfolding remove_post_def by auto
      show "eptr \<noteq> ListData list \<longrightarrow> list_mem st' = list_mem st"
        using st'(2) u unfolding remove_post_def unlink_post_def by simp
    qed
    with step st'(1) show ?thesis by auto
  qed
qed

lemma released_filter_eq:
  "x \<noteq> NULL \<Longrightarrow>
   released L list (filter (\<lambda>y. y = x) xs) =
     (if release L = NULL then [] else replicate (count_list xs x) (ReleaseCall list x))"
proof -
  assume "x \<noteq> NULL"
  then have a: "filter (\<lambda>y. y \<noteq> NULL) (filter (\<lambda>y. y = x) xs) = filter (\<lambda>y. y = x) xs"
    by (induction xs) auto
  have b: "map (ReleaseCall list) (filter (\<lambda>y. y = x) xs) =
      replicate (count_list xs x) (ReleaseCall list x)"
    by (induction xs) auto
  show ?thesis
    unfolding released_def a b ..
qed

lemma released_append:
  "released L list (xs @ ys) = released L list xs @ released L list ys"
  by (simp add: released_def)

lemma MIDIListRemove_chain:
  assumes "list \<noteq> NULL" and "x \<noteq> NULL" and "list_mem st list = Some L"
    and "chain (entry_mem st) (data L) cs"
  shows "\<exists>st'. MIDIListRemove list x st = Some (Inr (0, st')) \<and>
               remove_post list L x (ListData list) cs st st'"
proof -
  have "load_loc st (ListData list) = Inr (data L)"
    using assms by (simp add: load_loc_ListData)
  then obtain st' where st': "remove_loop list x (ListData list) (data L) st = Some (Inr st')"
    "remove_post list L x (ListData list) cs st st'"
    using remove_loop_chain [OF assms(4) assms(1) assms(3) assms(2), of "ListData list"] by auto
  then have "MIDIListRemove list x st = Some (Inr (0, st'))"
    using assms by (simp add: MIDIListRemove_def load_list_Some)
  with st'(2) show ?thesis by blast
qed


lemma destroy_loop_chain:
  assumes "chain (entry_mem st) entry cs" and "list \<noteq> NULL" and "list_mem st list = Some L"
  shows "\<exists>st'. destroy_loop list entry st = Some (Inr st') \<and>
               hook_calls st' = hook_calls st @ released L list (map snd cs) \<and>
               MIDIErrorNumber st' = MIDIErrorNumber st \<and>
               list_mem st' = list_mem st \<and>
               (\<forall>a. entry_mem st' a = (if a \<in> fst ` set cs then None else entry_mem st a))"
  using assms
proof (induction cs arbitrary: entry st)
  case Nil
  then have "entry = NULL" by simp
  then have "destroy_loop list entry st = Some (Inr st)"
    by (subst destroy_loop.simps) simp
  then show ?case by (simp add: released_def)
next
  case (Cons c cs)
  from Cons.prems(1) obtain e where e: "entry = fst c" "entry \<noteq> NULL"
    "entry_mem st entry = Some e" "item e = snd c" "chain (entry_mem st) (nxt e) cs"
    by (rule chain_ConsE)
  from Cons.prems(1) have notin: "fst c \<notin> fst ` set cs" by (rule chain_head_notin_tail)
  define st1 where "st1 = (if snd c \<noteq> NULL \<and> release L \<noteq> NULL
      then st\<lparr>hook_calls := hook_calls st @ [ReleaseCall list (snd c)]\<rparr> else st)"
  define st2 where "st2 = st1\<lparr>entry_mem := (entry_mem st1)(entry := None)\<rparr>"
  have step: "destroy_loop list entry st = destroy_loop list (nxt e) st2"
    using e Cons.prems(2,3)
    by (subst destroy_loop.simps)
      (simp add: load_entry_def list_item_release_def load_list_def st2_def st1_def)
  have em2: "entry_mem st2 = (entry_mem st)(entry := None)"
    by (simp add: st2_def st1_def)
  have "\<forall>a \<in> fst ` set cs. entry_mem st2 a = entry_mem st a"
  proof
    fix a assume "a \<in> fst ` set cs"
    with notin e(1) have "a \<noteq> entry" by metis
    then show "entry_mem st2 a = entry_mem st a" by (simp add: em2)
  qed
  with e(5) have ch2: "chain (entry_mem st2) (nxt e) cs" by (rule chain_frame)
  have lm2: "list_mem st2 = list_mem st" by (simp add: st2_def st1_def)
  with Cons.prems(3) have "list_mem st2 list = Some L" by simp
  from Cons.IH [OF ch2 Cons.prems(2) this] obtain st' where
    st': "destroy_loop list (nxt e) st2 = Some (Inr st')"
    "hook_calls st' = hook_calls st2 @ released L list (map snd cs)"
    "MIDIErrorNumber st' = MIDIErrorNumber st2" "list_mem st' = list_mem st2"
    "\<forall>a. entry_mem st' a = (if a \<in> fst ` set cs then None else entry_mem st2 a)"
    by blast
  have "hook_calls st2 = hook_calls st @ released L list [snd c]"
    by (simp add: st2_def st1_def released_def)
  with st'(2) have "hook_calls st' = hook_calls st @ released L list (map snd (c # cs))"
    by (simp add: released_def)
  moreover have "MIDIErrorNumber st' = MIDIErrorNumber st"
    using st'(3) by (simp add: st2_def st1_def)
  moreover have "\<forall>a. entry_mem st' a = (if a \<in> fst ` set (c # cs) then None else entry_mem st a)"
    using st'(5) e(1) by (simp add: em2)
  ultimately show ?case using step st'(1) st'(4) lm2 by simp
qed

lemma apply_loop_chain:
  assumes "chain (entry_mem st) entry cs"
  shows "apply_loop fn info entry r st =
           Some (Inr (r + sum_list (map (\<lambda>x. fn x info) (filter (\<lambda>x. x \<noteq> NULL) (map snd cs)))))"
  using assms
proof (induction cs arbitrary: entry r)
  case Nil
  then have "entry = NULL" by simp
  then show ?case by (subst apply_loop.simps) simp
next
  case (Cons c cs)
  from Cons.prems(1) obtain e where e: "entry = fst c" "entry \<noteq> NULL"
    "entry_mem st entry = Some e" "item e = snd c" "chain (entry_mem st) (nxt e) cs"
    by (rule chain_ConsE)
  have "apply_loop fn info entry r st =
      apply_loop fn info (nxt e) (if snd c \<noteq> NULL then r + fn (snd c) info else r) st"
    using e by (subst apply_loop.simps) (simp add: load_entry_def)
  with Cons.IH [OF e(5)] show ?case by simp
qed

text \<open>
  Claim C4. For a list that is not \<open>NULL\<close>, allocated, and whose entries \<open>cs\<close> are linked
  up to \<open>NULL\<close>, and an item \<open>x\<close> that is not \<open>NULL\<close>, \<^verbatim>\<open>MIDIListRemove\<close> returns 0; afterwards
  the list links exactly the entries of \<open>cs\<close> that do not hold \<open>x\<close>, in their order; every
  entry that held \<open>x\<close> is freed; the release hook, when there is one, has been called once
  with \<open>x\<close> for each entry removed, and not otherwise. When \<open>x\<close> is in no entry the list and
  the hook calls are as before, and the result is 0 all the same.
\<close>

theorem MIDIListRemove_removes_every_occurrence:
  assumes "list \<noteq> NULL" and "x \<noteq> NULL" and "list_mem st list = Some L"
    and "chain (entry_mem st) (data L) cs"
  shows "\<exists>st' L'. MIDIListRemove list x st = Some (Inr (0, st')) \<and>
           list_mem st' list = Some L' \<and>
           chain (entry_mem st') (data L') (filter (\<lambda>c. snd c \<noteq> x) cs) \<and>
           (\<forall>c \<in> set cs. snd c = x \<longrightarrow> entry_mem st' (fst c) = None) \<and>
           hook_calls st' = hook_calls st @
             (if release L = NULL then []
              else replicate (count_list (map snd cs) x) (ReleaseCall list x)) \<and>
           (x \<notin> snd ` set cs \<longrightarrow>
              chain (entry_mem st') (data L') cs \<and> hook_calls st' = hook_calls st)"
proof -
  from MIDIListRemove_chain [OF assms] obtain st' where
    r: "MIDIListRemove list x st = Some (Inr (0, st'))" and
    p: "remove_post list L x (ListData list) cs st st'" by blast
  from p obtain L' where L': "list_mem st' list = Some L'"
    and ch: "chain (entry_mem st') (data L') (filter (\<lambda>c. snd c \<noteq> x) cs)"
    unfolding remove_post_def by (auto simp: load_loc_ListData)
  have hc: "hook_calls st' = hook_calls st @
      (if release L = NULL then [] else replicate (count_list (map snd cs) x) (ReleaseCall list x))"
    using p assms(2) unfolding remove_post_def by (simp add: released_filter_eq)
  have freed: "\<forall>c \<in> set cs. snd c = x \<longrightarrow> entry_mem st' (fst c) = None"
    using p unfolding remove_post_def by simp
  have absent: "x \<notin> snd ` set cs \<longrightarrow>
      chain (entry_mem st') (data L') cs \<and> hook_calls st' = hook_calls st"
  proof
    assume nx: "x \<notin> snd ` set cs"
    then have "filter (\<lambda>c. snd c \<noteq> x) cs = cs"
      by (auto simp: filter_id_conv)
    moreover from nx have "count_list (map snd cs) x = 0"
      by (simp add: count_list_0_iff)
    ultimately show "chain (entry_mem st') (data L') cs \<and> hook_calls st' = hook_calls st"
      using ch hc by simp
  qed
  from r L' ch freed hc absent show ?thesis by blast
qed

lemma example_chain:
  "chain (entry_mem example_memory) 10 [(10, 5), (11, 6), (12, 5)]"
  by (simp add: example_memory_def chain.simps(2))

theorem MIDIListRemove_removes_every_occurrence_witness:
  "\<exists>st' L'. MIDIListRemove 1 5 example_memory = Some (Inr (0, st')) \<and>
      list_mem st' 1 = Some L' \<and>
      chain (entry_mem st') (data L') [(11, 6)] \<and>
      entry_mem st' 10 = None \<and> entry_mem st' 12 = None \<and>
      hook_calls st' =
        [RetainCall 1 5, RetainCall 1 6, RetainCall 1 5, ReleaseCall 1 5, ReleaseCall 1 5]"
proof -
  have l: "list_mem example_memory 1 = Some \<lparr>refs = 1, retain = 7, release = 8, data = 10\<rparr>"
    by (simp add: example_memory_def)
  have c: "chain (entry_mem example_memory) (data \<lparr>refs = 1, retain = 7, release = 8, data = 10\<rparr>)
      [(10, 5), (11, 6), (12, 5)]"
    using example_chain by simp
  have h: "hook_calls example_memory = [RetainCall 1 5, RetainCall 1 6, RetainCall 1 5]"
    by (simp add: example_memory_def)
  have n: "replicate (count_list (map snd [(10 :: ptr, 5 :: ptr), (11, 6), (12, 5)]) 5) (ReleaseCall 1 5)
      = [ReleaseCall 1 5, ReleaseCall 1 5]"
    by (simp add: numeral_2_eq_2)
  show ?thesis
    using MIDIListRemove_removes_every_occurrence [of 1 5 example_memory, OF _ _ l c] h n
    by simp
qed

subsection \<open>Well-formed memories and the balance of the hooks\<close>

lemma pending_append: "pending l x (xs @ ys) = pending l x xs + pending l x ys"
  by (simp add: pending_def)

lemma count_list_other: "\<forall>c \<in> set calls. call_list c = t \<Longrightarrow> l \<noteq> t \<Longrightarrow>
  count_list calls (RetainCall l x) = 0 \<and> count_list calls (ReleaseCall l x) = 0"
  by (induction calls) auto

lemma pending_other:
  "\<forall>c \<in> set calls. call_list c = t \<Longrightarrow> l \<noteq> t \<Longrightarrow> pending l x calls = 0"
  using count_list_other [of calls t l x] by (simp add: pending_def)

lemma valid_chain: "valid st \<Longrightarrow> list_mem st l = Some L \<Longrightarrow> \<exists>cs. chain (entry_mem st) (data L) cs"
  unfolding valid_def by blast

lemma valid_disjoint:
  "valid st \<Longrightarrow> l \<noteq> l' \<Longrightarrow> list_mem st l = Some L \<Longrightarrow> list_mem st l' = Some L' \<Longrightarrow>
   chain (entry_mem st) (data L) cs \<Longrightarrow> chain (entry_mem st) (data L') cs' \<Longrightarrow>
   fst ` set cs \<inter> fst ` set cs' = {}"
  unfolding valid_def by blast

lemma valid_NULL: "valid st \<Longrightarrow> list_mem st NULL = None"
  unfolding valid_def by blast

lemma transition_lists: "transition st st' t cs cs' fresh calls \<Longrightarrow> l \<noteq> t \<Longrightarrow>
  list_mem st' l = list_mem st l"
  unfolding transition_def by blast

lemma transition_entries: "transition st st' t cs cs' fresh calls \<Longrightarrow>
  a \<notin> fst ` set cs \<Longrightarrow> a \<notin> fresh \<Longrightarrow> entry_mem st' a = entry_mem st a"
  unfolding transition_def by blast

lemma transition_fresh: "transition st st' t cs cs' fresh calls \<Longrightarrow> a \<in> fresh \<Longrightarrow>
  entry_mem st a = None"
  unfolding transition_def by blast

lemma transition_before: "transition st st' t cs cs' fresh calls \<Longrightarrow> list_mem st t = Some L \<Longrightarrow>
  chain (entry_mem st) (data L) cs"
  unfolding transition_def by simp

lemma transition_before_None: "transition st st' t cs cs' fresh calls \<Longrightarrow> list_mem st t = None \<Longrightarrow>
  cs = [] \<and> cs' = [] \<and> calls = []"
  unfolding transition_def by simp

lemma transition_after: "transition st st' t cs cs' fresh calls \<Longrightarrow> list_mem st' t = Some L' \<Longrightarrow>
  chain (entry_mem st') (data L') cs'"
  unfolding transition_def by simp

lemma transition_after_None: "transition st st' t cs cs' fresh calls \<Longrightarrow> list_mem st' t = None \<Longrightarrow>
  cs' = []"
  unfolding transition_def by simp

lemma transition_sub: "transition st st' t cs cs' fresh calls \<Longrightarrow>
  fst ` set cs' \<subseteq> fst ` set cs \<union> fresh"
  unfolding transition_def by blast

lemma transition_hooks: "transition st st' t cs cs' fresh calls \<Longrightarrow>
  list_mem st t = Some L \<Longrightarrow> list_mem st' t = Some L' \<Longrightarrow>
  retain L' = retain L \<and> release L' = release L"
  unfolding transition_def by blast

lemma transition_pending: "transition st st' t cs cs' fresh calls \<Longrightarrow>
  list_mem st t = Some L \<Longrightarrow> retain L \<noteq> NULL \<Longrightarrow> release L \<noteq> NULL \<Longrightarrow> x \<noteq> NULL \<Longrightarrow>
  pending t x calls = int (count_list (map snd cs') x) - int (count_list (map snd cs) x)"
  unfolding transition_def by blast

lemma transition_NULL: "transition st st' t cs cs' fresh calls \<Longrightarrow> list_mem st' NULL = None"
  unfolding transition_def by blast

lemma transition_calls: "transition st st' t cs cs' fresh calls \<Longrightarrow>
  hook_calls st' = hook_calls st @ calls"
  unfolding transition_def by blast

lemma transition_about: "transition st st' t cs cs' fresh calls \<Longrightarrow>
  \<forall>c \<in> set calls. call_list c = t"
  unfolding transition_def by blast

lemma transition_other:
  assumes v: "valid st" and tr: "transition st st' t cs cs' fresh calls"
    and l: "l \<noteq> t" "list_mem st l = Some L" and ch: "chain (entry_mem st) (data L) ds"
  shows "chain (entry_mem st') (data L) ds \<and> fst ` set ds \<inter> (fst ` set cs \<union> fresh) = {}"
proof -
  have alloc: "fst ` set ds \<subseteq> dom (entry_mem st)" using ch by (rule chain_allocated)
  have fr: "\<And>a. a \<in> fresh \<Longrightarrow> a \<notin> dom (entry_mem st)"
    using transition_fresh [OF tr] by (simp add: domIff)
  have d1: "fst ` set ds \<inter> fst ` set cs = {}"
  proof (cases "list_mem st t")
    case None
    with transition_before_None [OF tr] show ?thesis by simp
  next
    case (Some T)
    from transition_before [OF tr Some] have "chain (entry_mem st) (data T) cs" .
    from valid_disjoint [OF v l(1) l(2) Some ch this] show ?thesis .
  qed
  with alloc fr have disj: "fst ` set ds \<inter> (fst ` set cs \<union> fresh) = {}" by blast
  have "\<forall>a \<in> fst ` set ds. entry_mem st' a = entry_mem st a"
  proof
    fix a assume "a \<in> fst ` set ds"
    with disj have "a \<notin> fst ` set cs" "a \<notin> fresh" by blast+
    then show "entry_mem st' a = entry_mem st a" by (rule transition_entries [OF tr])
  qed
  with ch have "chain (entry_mem st') (data L) ds" by (rule chain_frame)
  with disj show ?thesis by simp
qed

lemma transition_valid:
  assumes v: "valid st" and tr: "transition st st' t cs cs' fresh calls"
  shows "valid st'"
  unfolding valid_def
proof (intro conjI allI impI)
  show "list_mem st' NULL = None" using tr by (rule transition_NULL)
next
  fix l L assume L: "list_mem st' l = Some L"
  show "\<exists>ds. chain (entry_mem st') (data L) ds"
  proof (cases "l = t")
    case True
    with L transition_after [OF tr] show ?thesis by blast
  next
    case False
    with L transition_lists [OF tr False] have L0: "list_mem st l = Some L" by simp
    with valid_chain [OF v] obtain ds where "chain (entry_mem st) (data L) ds" by blast
    with transition_other [OF v tr False L0] show ?thesis by blast
  qed
next
  fix l l' L L' ds ds'
  assume a: "l \<noteq> l' \<and> list_mem st' l = Some L \<and> list_mem st' l' = Some L' \<and>
    chain (entry_mem st') (data L) ds \<and> chain (entry_mem st') (data L') ds'"
  have sub: "fst ` set cs' \<subseteq> fst ` set cs \<union> fresh" using tr by (rule transition_sub)
  have other: "\<exists>us0. us = us0 \<and> chain (entry_mem st) (data K) us0 \<and> list_mem st k = Some K \<and>
      fst ` set us0 \<inter> (fst ` set cs \<union> fresh) = {}"
    if "k \<noteq> t" "list_mem st' k = Some K" "chain (entry_mem st') (data K) us" for k K us
  proof -
    from that(2) transition_lists [OF tr that(1)] have K0: "list_mem st k = Some K" by simp
    with valid_chain [OF v] obtain us0 where us0: "chain (entry_mem st) (data K) us0" by blast
    from transition_other [OF v tr that(1) K0 us0]
    have o: "chain (entry_mem st') (data K) us0" "fst ` set us0 \<inter> (fst ` set cs \<union> fresh) = {}"
      by simp_all
    from o(1) that(3) have "us = us0" by (rule chain_unique [symmetric])
    with us0 K0 o(2) show ?thesis by blast
  qed
  have target: "fst ` set us \<inter> fst ` set vs = {}"
    if "k \<noteq> t" "list_mem st' k = Some K" "chain (entry_mem st') (data K) us"
      "list_mem st' t = Some T" "chain (entry_mem st') (data T) vs" for k K T us vs
  proof -
    from other [OF that(1-3)] have o: "fst ` set us \<inter> (fst ` set cs \<union> fresh) = {}" by blast
    from transition_after [OF tr that(4)] that(5) have "vs = cs'" by (rule chain_unique [symmetric])
    with o sub show ?thesis by blast
  qed
  from a have a1: "l \<noteq> l'" and a2: "list_mem st' l = Some L" and a3: "list_mem st' l' = Some L'"
    and a4: "chain (entry_mem st') (data L) ds" and a5: "chain (entry_mem st') (data L') ds'"
    by simp_all
  show "fst ` set ds \<inter> fst ` set ds' = {}"
  proof (cases "l = t")
    case True
    with a1 have "l' \<noteq> t" by simp
    from target [OF this a3 a5 a2 [unfolded True] a4 [unfolded True]] show ?thesis by blast
  next
    case lt: False
    show ?thesis
    proof (cases "l' = t")
      case True
      from target [OF lt a2 a4 a3 [unfolded True] a5 [unfolded True]] show ?thesis .
    next
      case False
      from other [OF lt a2 a4] have o1: "chain (entry_mem st) (data L) ds" "list_mem st l = Some L"
        by simp_all
      from other [OF False a3 a5] have o2: "chain (entry_mem st) (data L') ds'"
        "list_mem st l' = Some L'" by simp_all
      from valid_disjoint [OF v a1 o1(2) o2(2) o1(1) o2(1)] show ?thesis .
    qed
  qed
qed

lemma transition_delta:
  assumes v: "valid st" and tr: "transition st st' t cs cs' fresh calls"
    and L: "list_mem st l = Some L" and hooks: "retain L \<noteq> NULL" "release L \<noteq> NULL"
    and ch: "chain (entry_mem st) (data L) ds" and x: "x \<noteq> NULL"
  shows "\<exists>ds'. (case list_mem st' l of None \<Rightarrow> ds' = []
            | Some L' \<Rightarrow> retain L' = retain L \<and> release L' = release L \<and>
                chain (entry_mem st') (data L') ds') \<and>
          pending l x (hook_calls st') - int (count_list (map snd ds') x) =
          pending l x (hook_calls st) - int (count_list (map snd ds) x)"
proof (cases "l = t")
  case False
  from transition_other [OF v tr False L ch] have "chain (entry_mem st') (data L) ds" by simp
  moreover from transition_lists [OF tr False] L have "list_mem st' l = Some L" by simp
  moreover have "pending l x (hook_calls st') = pending l x (hook_calls st)"
    using transition_calls [OF tr] pending_other [OF transition_about [OF tr] False]
    by (simp add: pending_append)
  ultimately show ?thesis by auto
next
  case True
  from transition_before [OF tr L [unfolded True]] ch have ds: "ds = cs"
    unfolding True by (rule chain_unique [symmetric])
  have p: "pending l x (hook_calls st') =
      pending l x (hook_calls st) + (int (count_list (map snd cs') x) - int (count_list (map snd cs) x))"
    using transition_calls [OF tr] transition_pending [OF tr L [unfolded True] hooks x] True
    by (simp add: pending_append)
  show ?thesis
  proof (cases "list_mem st' l")
    case None
    with transition_after_None [OF tr] True have "cs' = []" by simp
    with p ds None show ?thesis by simp
  next
    case (Some L')
    from transition_after [OF tr Some [unfolded True]] have "chain (entry_mem st') (data L') cs'" .
    moreover from transition_hooks [OF tr L [unfolded True] Some [unfolded True]]
    have "retain L' = retain L \<and> release L' = release L" .
    ultimately show ?thesis using p ds Some by auto
  qed
qed

lemma transition_balanced:
  assumes v: "valid st" and tr: "transition st st' t cs cs' fresh calls"
    and b: "balanced st"
    and clean: "list_mem st t = None \<longrightarrow> list_mem st' t \<noteq> None \<longrightarrow>
      (\<forall>x. pending t x (hook_calls st) = 0)"
  shows "balanced st'"
  unfolding balanced_def
proof (intro allI impI)
  fix l L' ds' x
  assume a: "list_mem st' l = Some L' \<and> retain L' \<noteq> NULL \<and> release L' \<noteq> NULL \<and>
    chain (entry_mem st') (data L') ds' \<and> x \<noteq> NULL"
  then have L': "list_mem st' l = Some L'" and hooks: "retain L' \<noteq> NULL" "release L' \<noteq> NULL"
    and ch': "chain (entry_mem st') (data L') ds'" and x: "x \<noteq> NULL" by simp_all
  show "pending l x (hook_calls st') = int (count_list (map snd ds') x)"
  proof (cases "list_mem st l")
    case None
    have "l = t"
    proof (rule ccontr)
      assume "l \<noteq> t"
      from transition_lists [OF tr this] None L' show False by simp
    qed
    with None transition_before_None [OF tr] have e: "cs' = []" "calls = []" by simp_all
    from transition_after [OF tr L' [unfolded \<open>l = t\<close>]] ch' have "ds' = cs'"
      unfolding \<open>l = t\<close> by (rule chain_unique [symmetric])
    with e transition_calls [OF tr] clean None L' \<open>l = t\<close> show ?thesis by simp
  next
    case (Some L)
    from valid_chain [OF v Some] obtain ds where ds: "chain (entry_mem st) (data L) ds" by blast
    have same: "retain L' = retain L \<and> release L' = release L"
    proof (cases "l = t")
      case True
      from transition_hooks [OF tr Some [unfolded True] L' [unfolded True]] show ?thesis .
    next
      case False
      from transition_lists [OF tr False] Some L' show ?thesis by simp
    qed
    with hooks have h: "retain L \<noteq> NULL" "release L \<noteq> NULL" by simp_all
    from transition_delta [OF v tr Some h ds x] L' obtain es where
      es: "chain (entry_mem st') (data L') es"
      "pending l x (hook_calls st') - int (count_list (map snd es) x) =
       pending l x (hook_calls st) - int (count_list (map snd ds) x)" by auto
    from es(1) ch' have "ds' = es" by (rule chain_unique [symmetric])
    moreover from b Some h ds x have "pending l x (hook_calls st) = int (count_list (map snd ds) x)"
      unfolding balanced_def by blast
    ultimately show ?thesis using es(2) by simp
  qed
qed

lemma transition_same:
  assumes "valid st" and "list_mem st' = list_mem st" and "entry_mem st' = entry_mem st"
    and "hook_calls st' = hook_calls st"
  shows "transition st st' NULL [] [] {} []"
  using assms valid_NULL [OF assms(1)] by (simp add: transition_def)

lemma pending_released:
  "release L \<noteq> NULL \<Longrightarrow> x \<noteq> NULL \<Longrightarrow> pending l x (released L l xs) = - int (count_list xs x)"
  by (induction xs) (auto simp: pending_def released_def)

lemma released_about: "\<forall>c \<in> set (released L l xs). call_list c = l"
  by (auto simp: released_def)

lemma count_list_filter_eq:
  "count_list (filter (\<lambda>y. y = x) xs) z = (if z = x then count_list xs x else 0)"
  by (induction xs) auto

lemma count_list_filter_neq:
  "int (count_list (map snd (filter (\<lambda>c. snd c \<noteq> x) cs)) z) =
     int (count_list (map snd cs) z) - (if z = x then int (count_list (map snd cs) x) else 0)"
  by (induction cs) auto

lemma Add_transition:
  assumes v: "valid st" and l: "l \<noteq> NULL" and x: "x \<noteq> NULL" and m: "m \<noteq> NULL"
    and fresh: "entry_mem st m = None" and L: "list_mem st l = Some L"
    and ch: "chain (entry_mem st) (data L) cs"
  shows "\<exists>st'. MIDIListAdd l x m st = Inr (0, st') \<and>
           transition st st' l cs ((m, x) # cs) {m}
             (if retain L \<noteq> NULL then [RetainCall l x] else [])"
proof -
  define calls where "calls = (if retain L \<noteq> NULL then [RetainCall l x] else [])"
  define st' where "st' = st\<lparr>entry_mem := (entry_mem st)(m \<mapsto> \<lparr>item = x, nxt = data L\<rparr>),
      hook_calls := hook_calls st @ calls,
      list_mem := (list_mem st)(l \<mapsto> L\<lparr>data := m\<rparr>)\<rparr>"
  have run: "MIDIListAdd l x m st = Inr (0, st')"
    using l x m L
    by (simp add: MIDIListAdd_def load_list_def list_item_retain_def st'_def calls_def)
  from chain_allocated [OF ch] fresh have mcs: "m \<notin> fst ` set cs" by (auto simp: domIff)
  then have "\<forall>a \<in> fst ` set cs. entry_mem st' a = entry_mem st a"
    by (auto simp: st'_def)
  with ch have ch0: "chain (entry_mem st') (data L) cs" by (rule chain_frame)
  have ch': "chain (entry_mem st') m ((m, x) # cs)"
    using m ch0 by (intro chain_ConsI [where e = "\<lparr>item = x, nxt = data L\<rparr>"]) (simp_all add: st'_def)
  have pend: "pending l z calls =
      int (count_list (map snd ((m, x) # cs)) z) - int (count_list (map snd cs) z)"
    if "retain L \<noteq> NULL" for z
    using that by (simp add: pending_def calls_def)
  have "transition st st' l cs ((m, x) # cs) {m} calls"
    unfolding transition_def
  proof (intro conjI)
    show "\<forall>k. k \<noteq> l \<longrightarrow> list_mem st' k = list_mem st k" by (simp add: st'_def)
    show "\<forall>a. a \<notin> fst ` set cs \<union> {m} \<longrightarrow> entry_mem st' a = entry_mem st a"
      by (simp add: st'_def)
    show "{m} \<inter> dom (entry_mem st) = {}" using fresh by (simp add: domIff)
    show "case list_mem st l of None \<Rightarrow> cs = [] \<and> (m, x) # cs = [] \<and> calls = []
        | Some L \<Rightarrow> chain (entry_mem st) (data L) cs"
      using L ch by simp
    show "case list_mem st' l of None \<Rightarrow> (m, x) # cs = []
        | Some L' \<Rightarrow> chain (entry_mem st') (data L') ((m, x) # cs)"
      using ch' by (simp add: st'_def)
    show "fst ` set ((m, x) # cs) \<subseteq> fst ` set cs \<union> {m}" by auto
    show "\<forall>K K'. list_mem st l = Some K \<and> list_mem st' l = Some K' \<longrightarrow>
        retain K' = retain K \<and> release K' = release K"
      using L by (auto simp: st'_def)
    show "\<forall>K. list_mem st l = Some K \<and> retain K \<noteq> NULL \<and> release K \<noteq> NULL \<longrightarrow>
        (\<forall>z. z \<noteq> NULL \<longrightarrow> pending l z calls =
           int (count_list (map snd ((m, x) # cs)) z) - int (count_list (map snd cs) z))"
      using L pend by auto
    show "list_mem st' NULL = None" using valid_NULL [OF v] l by (simp add: st'_def)
    show "hook_calls st' = hook_calls st @ calls" by (simp add: st'_def)
    show "\<forall>c \<in> set calls. call_list c = l" by (simp add: calls_def)
  qed
  with run show ?thesis unfolding calls_def by blast
qed

lemma Remove_transition:
  assumes v: "valid st" and l: "l \<noteq> NULL" and x: "x \<noteq> NULL" and L: "list_mem st l = Some L"
    and ch: "chain (entry_mem st) (data L) cs"
  shows "\<exists>st'. MIDIListRemove l x st = Some (Inr (0, st')) \<and> list_mem st' l \<noteq> None \<and>
           transition st st' l cs (filter (\<lambda>c. snd c \<noteq> x) cs) {}
             (released L l (filter (\<lambda>y. y = x) (map snd cs)))"
proof -
  from MIDIListRemove_chain [OF l x L ch] obtain st' where
    run: "MIDIListRemove l x st = Some (Inr (0, st'))" and
    p: "remove_post l L x (ListData l) cs st st'" by blast
  from p obtain L' where L': "list_mem st' l = Some L'" "retain L' = retain L"
    "release L' = release L" unfolding remove_post_def by blast
  from p L' have ch': "chain (entry_mem st') (data L') (filter (\<lambda>c. snd c \<noteq> x) cs)"
    unfolding remove_post_def by (auto simp: load_loc_ListData)
  have "transition st st' l cs (filter (\<lambda>c. snd c \<noteq> x) cs) {}
      (released L l (filter (\<lambda>y. y = x) (map snd cs)))"
    unfolding transition_def
  proof (intro conjI)
    show "\<forall>k. k \<noteq> l \<longrightarrow> list_mem st' k = list_mem st k"
      using p unfolding remove_post_def by simp
    show "\<forall>a. a \<notin> fst ` set cs \<union> {} \<longrightarrow> entry_mem st' a = entry_mem st a"
      using p unfolding remove_post_def by simp
    show "{} \<inter> dom (entry_mem st) = {}" by simp
    show "case list_mem st l of
          None \<Rightarrow> cs = [] \<and> filter (\<lambda>c. snd c \<noteq> x) cs = [] \<and>
            released L l (filter (\<lambda>y. y = x) (map snd cs)) = []
        | Some L \<Rightarrow> chain (entry_mem st) (data L) cs"
      using L ch by simp
    show "case list_mem st' l of None \<Rightarrow> filter (\<lambda>c. snd c \<noteq> x) cs = []
        | Some L' \<Rightarrow> chain (entry_mem st') (data L') (filter (\<lambda>c. snd c \<noteq> x) cs)"
      using L' ch' by simp
    show "fst ` set (filter (\<lambda>c. snd c \<noteq> x) cs) \<subseteq> fst ` set cs \<union> {}" by auto
    show "\<forall>K K'. list_mem st l = Some K \<and> list_mem st' l = Some K' \<longrightarrow>
        retain K' = retain K \<and> release K' = release K"
      using L L' by auto
    show "\<forall>K. list_mem st l = Some K \<and> retain K \<noteq> NULL \<and> release K \<noteq> NULL \<longrightarrow>
        (\<forall>z. z \<noteq> NULL \<longrightarrow> pending l z (released L l (filter (\<lambda>y. y = x) (map snd cs))) =
           int (count_list (map snd (filter (\<lambda>c. snd c \<noteq> x) cs)) z) -
           int (count_list (map snd cs) z))"
      using L by (auto simp: pending_released count_list_filter_eq count_list_filter_neq)
    show "list_mem st' NULL = None"
      using p valid_NULL [OF v] l unfolding remove_post_def by simp
    show "hook_calls st' = hook_calls st @ released L l (filter (\<lambda>y. y = x) (map snd cs))"
      using p unfolding remove_post_def by simp
    show "\<forall>c \<in> set (released L l (filter (\<lambda>y. y = x) (map snd cs))). call_list c = l"
      by (rule released_about)
  qed
  with run L'(1) show ?thesis by auto
qed

lemma Destroy_transition:
  assumes v: "valid st" and l: "l \<noteq> NULL" and L: "list_mem st l = Some L"
    and ch: "chain (entry_mem st) (data L) cs"
    and st0: "list_mem st0 = (list_mem st)(l \<mapsto> L0)" "entry_mem st0 = entry_mem st"
      "hook_calls st0 = hook_calls st" "retain L0 = retain L" "release L0 = release L"
      "data L0 = data L"
  shows "\<exists>st'. MIDIListDestroy l st0 = Some (Inr st') \<and> list_mem st' l = None \<and>
           transition st st' l cs [] {} (released L l (map snd cs))"
proof -
  define st1 where "st1 = st0\<lparr>list_mem := (list_mem st0)(l \<mapsto> L0\<lparr>data := NULL\<rparr>)\<rparr>"
  have ch1: "chain (entry_mem st1) (data L) cs" using ch st0(2) by (simp add: st1_def)
  have L1: "list_mem st1 l = Some (L0\<lparr>data := NULL\<rparr>)" by (simp add: st1_def)
  from destroy_loop_chain [OF ch1 l L1] obtain st2 where
    st2: "destroy_loop l (data L) st1 = Some (Inr st2)"
    "hook_calls st2 = hook_calls st1 @ released (L0\<lparr>data := NULL\<rparr>) l (map snd cs)"
    "list_mem st2 = list_mem st1"
    "\<forall>a. entry_mem st2 a = (if a \<in> fst ` set cs then None else entry_mem st1 a)"
    by blast
  define st' where "st' = st2\<lparr>list_mem := (list_mem st2)(l := None)\<rparr>"
  have st1_eq: "st0\<lparr>list_mem := (list_mem st)(l \<mapsto> L0\<lparr>data := NULL\<rparr>)\<rparr> = st1"
    by (simp add: st1_def st0(1))
  have run: "MIDIListDestroy l st0 = Some (Inr st')"
    using l st0(1,6) st2(1)
    by (simp add: MIDIListDestroy_def load_list_def st1_eq st'_def)
  have rel: "released (L0\<lparr>data := NULL\<rparr>) l ys = released L l ys" for ys
    using st0(5) by (simp add: released_def)
  have "transition st st' l cs [] {} (released L l (map snd cs))"
    unfolding transition_def
  proof (intro conjI)
    show "\<forall>k. k \<noteq> l \<longrightarrow> list_mem st' k = list_mem st k"
      using st2(3) st0(1) by (simp add: st'_def st1_def)
    show "\<forall>a. a \<notin> fst ` set cs \<union> {} \<longrightarrow> entry_mem st' a = entry_mem st a"
      using st2(4) st0(2) by (simp add: st'_def st1_def)
    show "{} \<inter> dom (entry_mem st) = {}" by simp
    show "case list_mem st l of
          None \<Rightarrow> cs = [] \<and> [] = [] \<and> released L l (map snd cs) = []
        | Some L \<Rightarrow> chain (entry_mem st) (data L) cs"
      using L ch by simp
    show "case list_mem st' l of None \<Rightarrow> [] = []
        | Some L' \<Rightarrow> chain (entry_mem st') (data L') []"
      by (simp add: st'_def)
    show "fst ` set [] \<subseteq> fst ` set cs \<union> {}" by simp
    show "\<forall>K K'. list_mem st l = Some K \<and> list_mem st' l = Some K' \<longrightarrow>
        retain K' = retain K \<and> release K' = release K"
      by (simp add: st'_def)
    show "\<forall>K. list_mem st l = Some K \<and> retain K \<noteq> NULL \<and> release K \<noteq> NULL \<longrightarrow>
        (\<forall>z. z \<noteq> NULL \<longrightarrow> pending l z (released L l (map snd cs)) =
           int (count_list (map snd []) z) - int (count_list (map snd cs) z))"
      using L by (auto simp: pending_released)
    show "list_mem st' NULL = None"
      using st2(3) st0(1) valid_NULL [OF v] l by (simp add: st'_def st1_def)
    show "hook_calls st' = hook_calls st @ released L l (map snd cs)"
      using st2(2) st0(3) rel by (simp add: st'_def st1_def)
    show "\<forall>c \<in> set (released L l (map snd cs)). call_list c = l"
      by (rule released_about)
  qed
  moreover have "list_mem st' l = None" by (simp add: st'_def)
  ultimately show ?thesis using run by blast
qed

lemma refs_transition:
  assumes v: "valid st" and l: "l \<noteq> NULL" and L: "list_mem st l = Some L"
    and ch: "chain (entry_mem st) (data L) cs"
    and st': "list_mem st' = (list_mem st)(l \<mapsto> L\<lparr>refs := n\<rparr>)" "entry_mem st' = entry_mem st"
      "hook_calls st' = hook_calls st"
  shows "transition st st' l cs cs {} []"
  using assms valid_NULL [OF v] by (simp add: transition_def pending_def)

lemma Create_transition:
  assumes v: "valid st" and m: "m \<noteq> NULL" and fresh: "list_mem st m = None"
    and st': "list_mem st' = (list_mem st)(m \<mapsto> L')" "entry_mem st' = entry_mem st"
      "hook_calls st' = hook_calls st" "data L' = NULL"
  shows "transition st st' m [] [] {} []"
  using assms valid_NULL [OF v] by (simp add: transition_def)

lemma errno_only:
  assumes v: "valid st"
  shows "transition st (MIDIPrecondFailed e st) NULL [] [] {} []"
  by (rule transition_same [OF v]) (simp_all add: MIDIPrecondFailed_def)

lemma target_effectI:
  assumes "op_list op = Some l" and "list_mem st l = Some L" and "chain (entry_mem st) (data L) cs"
    and "hook_calls st' = hook_calls st @ expected_calls op L (map snd cs)"
    and "case expected_cells op L cs of None \<Rightarrow> list_mem st' l = None
         | Some cs' \<Rightarrow> (case list_mem st' l of None \<Rightarrow> False
            | Some L' \<Rightarrow> chain (entry_mem st') (data L') cs')"
  shows "target_effect op st st'"
proof -
  have "hook_calls st' = hook_calls st @ expected_calls op L (map snd ds) \<and>
      (case expected_cells op L ds of None \<Rightarrow> list_mem st' l = None
       | Some cs' \<Rightarrow> (case list_mem st' l of None \<Rightarrow> False
          | Some L' \<Rightarrow> chain (entry_mem st') (data L') cs'))"
    if "chain (entry_mem st) (data L) ds" for ds
  proof -
    from assms(3) that have "ds = cs" by (rule chain_unique [symmetric])
    with assms(4,5) show ?thesis by simp
  qed
  then show ?thesis
    unfolding target_effect_def using assms(1,2) by simp
qed

lemma op_summaryI:
  assumes "target_effect op st st'" and "transition st st' t cs cs' fresh calls"
    and "list_mem st t = None \<and> list_mem st' t \<noteq> None \<longrightarrow> (\<exists>r s. op = OpCreate r s t)"
  shows "op_summary op st st'"
  unfolding op_summary_def
  by (intro conjI exI [of _ t] exI [of _ cs] exI [of _ cs'] exI [of _ fresh] exI [of _ calls])
    (rule assms)+

lemma op_summary_same:
  assumes v: "valid st" and same: "list_mem st' = list_mem st" "entry_mem st' = entry_mem st"
    "hook_calls st' = hook_calls st"
    and noop: "case op_list op of None \<Rightarrow> True
      | Some l \<Rightarrow> list_mem st l = None \<or>
          ((\<forall>L xs. expected_calls op L xs = []) \<and> (\<forall>L cs. expected_cells op L cs = Some cs))"
  shows "op_summary op st st'"
proof -
  have "target_effect op st st'"
  proof (cases "op_list op")
    case None
    then show ?thesis using same by (simp add: target_effect_def)
  next
    case (Some l)
    show ?thesis
    proof (cases "list_mem st l")
      case None
      with Some show ?thesis using same by (simp add: target_effect_def)
    next
      case L: (Some L)
      with Some noop have n: "\<forall>L xs. expected_calls op L xs = []"
        "\<forall>L cs. expected_cells op L cs = Some cs" by simp_all
      from valid_chain [OF v L] obtain cs where cs: "chain (entry_mem st) (data L) cs" by blast
      show ?thesis
        using Some L cs n same by (intro target_effectI [of op l st L cs]) simp_all
    qed
  qed
  moreover have "list_mem st NULL = None \<and> list_mem st' NULL \<noteq> None \<longrightarrow>
      (\<exists>r s. op = OpCreate r s NULL)"
    using valid_NULL [OF v] same by simp
  ultimately show ?thesis
    using transition_same [OF v same] by (intro op_summaryI)
qed

lemma op_summary_errno:
  assumes "valid st"
    and "case op_list op of None \<Rightarrow> True
      | Some l \<Rightarrow> list_mem st l = None \<or>
          ((\<forall>L xs. expected_calls op L xs = []) \<and> (\<forall>L cs. expected_cells op L cs = Some cs))"
  shows "op_summary op st (MIDIPrecondFailed e st)"
  using assms by (intro op_summary_same) (simp_all add: MIDIPrecondFailed_def)

lemma op_summary_target:
  assumes tr: "transition st st' l cs cs' fresh calls"
    and op: "op_list op = Some l" and L: "list_mem st l = Some L"
    and calls: "calls = expected_calls op L (map snd cs)"
    and cells: "case expected_cells op L cs of None \<Rightarrow> list_mem st' l = None
         | Some ds \<Rightarrow> ds = cs' \<and> list_mem st' l \<noteq> None"
  shows "op_summary op st st'"
proof -
  have "target_effect op st st'"
  proof (rule target_effectI [OF op L transition_before [OF tr L]])
    show "hook_calls st' = hook_calls st @ expected_calls op L (map snd cs)"
      using transition_calls [OF tr] calls by simp
    show "case expected_cells op L cs of None \<Rightarrow> list_mem st' l = None
         | Some cs' \<Rightarrow> (case list_mem st' l of None \<Rightarrow> False
            | Some L' \<Rightarrow> chain (entry_mem st') (data L') cs')"
    proof (cases "expected_cells op L cs")
      case None
      with cells show ?thesis by simp
    next
      case (Some ds)
      with cells obtain L' where "ds = cs'" "list_mem st' l = Some L'" by auto
      with transition_after [OF tr this(2)] Some show ?thesis by simp
    qed
  qed
  then show ?thesis using tr L by (intro op_summaryI [of op st st' l cs cs' fresh calls]) simp_all
qed

lemma Create_summary:
  assumes v: "valid st" and f: "malloc_fresh (OpCreate r s m) st"
    and run: "run_op (OpCreate r s m) st = Some (Inr st')"
  shows "op_summary (OpCreate r s m) st st'"
proof (cases "m = NULL")
  case True
  with run have "st' = MIDIPrecondFailed ENOMEM st" by (simp add: MIDIListCreate_def)
  then show ?thesis using v by (simp add: op_summary_errno)
next
  case False
  with f have fresh: "list_mem st m = None" by simp
  from run False have st': "st' = st\<lparr>list_mem := (list_mem st)(m \<mapsto>
      \<lparr>refs = 1, retain = r, release = s, data = NULL\<rparr>)\<rparr>"
    by (simp add: MIDIListCreate_def)
  have tr: "transition st st' m [] [] {} []"
    by (rule Create_transition [OF v False fresh, where L' = "\<lparr>refs = 1, retain = r, release = s, data = NULL\<rparr>"])
      (simp_all add: st')
  have "target_effect (OpCreate r s m) st st'"
    by (simp add: target_effect_def st')
  then show ?thesis using tr by (intro op_summaryI [of _ st st' m "[]" "[]" "{}" "[]"]) simp_all
qed

lemma Destroy_summary:
  assumes v: "valid st" and run: "run_op (OpDestroy l) st = Some (Inr st')"
  shows "op_summary (OpDestroy l) st st'"
proof (cases "l = NULL")
  case True
  with run have "st' = MIDIPrecondFailed EFAULT st" by (simp add: MIDIListDestroy_def)
  then show ?thesis using v True valid_NULL [OF v] by (simp add: op_summary_errno)
next
  case False
  from run False obtain L where L: "list_mem st l = Some L"
    by (auto simp: MIDIListDestroy_def load_list_def split: option.splits)
  from valid_chain [OF v L] obtain cs where cs: "chain (entry_mem st) (data L) cs" by blast
  have "list_mem st = (list_mem st)(l \<mapsto> L)" using L by (simp add: fun_upd_idem)
  from Destroy_transition [OF v False L cs this] obtain st'' where
    d: "MIDIListDestroy l st = Some (Inr st'')" "list_mem st'' l = None"
    "transition st st'' l cs [] {} (released L l (map snd cs))" by auto
  from d(1) run have "st'' = st'" by simp
  with d show ?thesis
    by (intro op_summary_target [of st st' l cs "[]" "{}" "released L l (map snd cs)" _ L])
      (simp_all add: L)
qed

lemma Retain_summary:
  assumes v: "valid st" and run: "run_op (OpRetain l) st = Some (Inr st')"
  shows "op_summary (OpRetain l) st st'"
proof (cases "l = NULL")
  case True
  with run have "st' = MIDIPrecondFailed EFAULT st" by (simp add: MIDIListRetain_def)
  then show ?thesis using v True valid_NULL [OF v] by (simp add: op_summary_errno)
next
  case False
  from run False obtain L where L: "list_mem st l = Some L"
    by (auto simp: MIDIListRetain_def load_list_def split: option.splits)
  from valid_chain [OF v L] obtain cs where cs: "chain (entry_mem st) (data L) cs" by blast
  from run False L have st': "st' = st\<lparr>list_mem := (list_mem st)(l \<mapsto> L\<lparr>refs := refs L + 1\<rparr>)\<rparr>"
    by (simp add: MIDIListRetain_def load_list_def)
  have "transition st st' l cs cs {} []"
    by (rule refs_transition [OF v False L cs, of _ "refs L + 1"]) (simp_all add: st')
  then show ?thesis
    by (intro op_summary_target [of st st' l cs cs "{}" "[]" _ L]) (simp_all add: L st')
qed

lemma Release_summary:
  assumes v: "valid st" and run: "run_op (OpRelease l) st = Some (Inr st')"
  shows "op_summary (OpRelease l) st st'"
proof (cases "l = NULL")
  case True
  with run have "st' = MIDIPrecondFailed EFAULT st" by (simp add: MIDIListRelease_def)
  then show ?thesis using v True valid_NULL [OF v] by (simp add: op_summary_errno)
next
  case False
  from run False obtain L where L: "list_mem st l = Some L"
    by (auto simp: MIDIListRelease_def load_list_def split: option.splits)
  from valid_chain [OF v L] obtain cs where cs: "chain (entry_mem st) (data L) cs" by blast
  define st1 where "st1 = st\<lparr>list_mem := (list_mem st)(l \<mapsto> L\<lparr>refs := refs L - 1\<rparr>)\<rparr>"
  show ?thesis
  proof (cases "refs L - 1 = 0")
    case True
    with run False L have r: "MIDIListDestroy l st1 = Some (Inr st')"
      by (simp add: MIDIListRelease_def load_list_def st1_def)
    have "\<exists>st''. MIDIListDestroy l st1 = Some (Inr st'') \<and> list_mem st'' l = None \<and>
        transition st st'' l cs [] {} (released L l (map snd cs))"
      by (rule Destroy_transition [OF v False L cs, where ?L0.0 = "L\<lparr>refs := refs L - 1\<rparr>"])
        (simp_all add: st1_def)
    with r have d: "list_mem st' l = None"
      "transition st st' l cs [] {} (released L l (map snd cs))" by auto
    with True show ?thesis
      by (intro op_summary_target [of st st' l cs "[]" "{}" "released L l (map snd cs)" _ L])
        (simp_all add: L)
  next
    case nz: False
    with run False L have st': "st' = st1"
      by (simp add: MIDIListRelease_def load_list_def st1_def)
    have "transition st st' l cs cs {} []"
      by (rule refs_transition [OF v False L cs, of _ "refs L - 1"]) (simp_all add: st' st1_def)
    with nz show ?thesis
      by (intro op_summary_target [of st st' l cs cs "{}" "[]" _ L]) (simp_all add: L st' st1_def)
  qed
qed

lemma Add_summary:
  assumes v: "valid st" and f: "malloc_fresh (OpAdd l x m) st"
    and run: "run_op (OpAdd l x m) st = Some (Inr st')"
  shows "op_summary (OpAdd l x m) st st'"
proof (cases "l = NULL")
  case True
  with run have "st' = MIDIPrecondFailed EFAULT st" by (simp add: MIDIListAdd_def)
  then show ?thesis using v True valid_NULL [OF v] by (simp add: op_summary_errno)
next
  case l: False
  show ?thesis
  proof (cases "x = NULL")
    case True
    with run l have "st' = MIDIPrecondFailed EINVAL st" by (simp add: MIDIListAdd_def)
    then show ?thesis using v True by (simp add: op_summary_errno)
  next
    case x: False
    from run l x have m: "m \<noteq> NULL" by (auto simp: MIDIListAdd_def split: if_splits)
    with f have fresh: "entry_mem st m = None" by simp
    from run l x m obtain L where L: "list_mem st l = Some L"
      by (auto simp: MIDIListAdd_def load_list_def split: option.splits)
    from valid_chain [OF v L] obtain cs where cs: "chain (entry_mem st) (data L) cs" by blast
    from Add_transition [OF v l x m fresh L cs] obtain st'' where
      a: "MIDIListAdd l x m st = Inr (0, st'')"
      "transition st st'' l cs ((m, x) # cs) {m} (if retain L \<noteq> NULL then [RetainCall l x] else [])"
      by blast
    from a(1) run have "st'' = st'" by simp
    with a(2) have tr: "transition st st' l cs ((m, x) # cs) {m}
        (if retain L \<noteq> NULL then [RetainCall l x] else [])" by simp
    have "list_mem st' l \<noteq> None"
      using transition_after_None [OF tr] by auto
    with tr x show ?thesis
      by (intro op_summary_target [of st st' l cs "(m, x) # cs" "{m}"
            "if retain L \<noteq> NULL then [RetainCall l x] else []" _ L])
        (simp_all add: L)
  qed
qed

lemma Remove_summary:
  assumes v: "valid st" and run: "run_op (OpRemove l x) st = Some (Inr st')"
  shows "op_summary (OpRemove l x) st st'"
proof (cases "l = NULL")
  case True
  with run have "st' = MIDIPrecondFailed EFAULT st" by (simp add: MIDIListRemove_def)
  then show ?thesis using v True valid_NULL [OF v] by (simp add: op_summary_errno)
next
  case l: False
  show ?thesis
  proof (cases "x = NULL")
    case True
    with run l have "st' = MIDIPrecondFailed EINVAL st" by (simp add: MIDIListRemove_def)
    then show ?thesis using v True by (simp add: op_summary_errno)
  next
    case x: False
    from run l x obtain L where L: "list_mem st l = Some L"
      by (auto simp: MIDIListRemove_def load_list_def split: option.splits)
    from valid_chain [OF v L] obtain cs where cs: "chain (entry_mem st) (data L) cs" by blast
    from Remove_transition [OF v l x L cs] obtain st'' where
      a: "MIDIListRemove l x st = Some (Inr (0, st''))" "list_mem st'' l \<noteq> None"
      "transition st st'' l cs (filter (\<lambda>c. snd c \<noteq> x) cs) {}
         (released L l (filter (\<lambda>y. y = x) (map snd cs)))"
      by blast
    from a(1) run have "st'' = st'" by simp
    with a x show ?thesis
      by (intro op_summary_target [of st st' l cs "filter (\<lambda>c. snd c \<noteq> x) cs" "{}"
            "released L l (filter (\<lambda>y. y = x) (map snd cs))" _ L])
        (simp_all add: L)
  qed
qed

lemma Apply_summary:
  assumes v: "valid st" and run: "run_op (OpApply l info func fn) st = Some (Inr st')"
  shows "op_summary (OpApply l info func fn) st st'"
proof (cases "l = NULL")
  case True
  with run have "st' = MIDIPrecondFailed EFAULT st" by (simp add: MIDIListApply_def)
  then show ?thesis using v True valid_NULL [OF v] by (simp add: op_summary_errno)
next
  case l: False
  show ?thesis
  proof (cases "func = NULL")
    case True
    with run l have "st' = MIDIPrecondFailed EINVAL st" by (simp add: MIDIListApply_def)
    then show ?thesis using v by (simp add: op_summary_errno)
  next
    case False
    from run l False obtain L where L: "list_mem st l = Some L"
      by (auto simp: MIDIListApply_def load_list_def split: option.splits)
    from valid_chain [OF v L] obtain cs where cs: "chain (entry_mem st) (data L) cs" by blast
    from run l False L apply_loop_chain [OF cs, of fn info 0] have "st' = st"
      by (simp add: MIDIListApply_def load_list_def)
    then show ?thesis using v by (simp add: op_summary_same)
  qed
qed

lemma run_op_summary:
  assumes "valid st" and "malloc_fresh op st" and "run_op op st = Some (Inr st')"
  shows "op_summary op st st'"
proof (cases op)
  case (OpCreate r s m)
  with assms show ?thesis using Create_summary by simp
next
  case (OpDestroy l)
  with assms show ?thesis using Destroy_summary by simp
next
  case (OpRetain l)
  with assms show ?thesis using Retain_summary by simp
next
  case (OpRelease l)
  with assms show ?thesis using Release_summary by simp
next
  case (OpAdd l x m)
  with assms show ?thesis using Add_summary by simp
next
  case (OpRemove l x)
  with assms show ?thesis using Remove_summary by simp
next
  case (OpApply l info func fn)
  with assms show ?thesis using Apply_summary by simp
qed

lemma run_op_returns:
  assumes v: "valid st" and d: "op_defined op st"
  shows "\<exists>st'. run_op op st = Some (Inr st')"
proof (cases op)
  case (OpCreate r s m)
  then show ?thesis by simp
next
  case (OpDestroy l)
  show ?thesis
  proof (cases "l = NULL")
    case True
    with OpDestroy show ?thesis by (simp add: MIDIListDestroy_def)
  next
    case False
    with d OpDestroy obtain L where L: "list_mem st l = Some L" by (auto simp: op_defined_def)
    from valid_chain [OF v L] obtain cs where cs: "chain (entry_mem st) (data L) cs" by blast
    have "list_mem st = (list_mem st)(l \<mapsto> L)" using L by (simp add: fun_upd_idem)
    from Destroy_transition [OF v False L cs this] OpDestroy show ?thesis by auto
  qed
next
  case (OpRetain l)
  with d show ?thesis
    by (auto simp: op_defined_def MIDIListRetain_def load_list_def)
next
  case (OpRelease l)
  show ?thesis
  proof (cases "l = NULL")
    case True
    with OpRelease show ?thesis by (simp add: MIDIListRelease_def)
  next
    case False
    with d OpRelease obtain L where L: "list_mem st l = Some L" by (auto simp: op_defined_def)
    from valid_chain [OF v L] obtain cs where cs: "chain (entry_mem st) (data L) cs" by blast
    define st1 where "st1 = st\<lparr>list_mem := (list_mem st)(l \<mapsto> L\<lparr>refs := refs L - 1\<rparr>)\<rparr>"
    have "\<exists>st''. MIDIListDestroy l st1 = Some (Inr st'') \<and> list_mem st'' l = None \<and>
        transition st st'' l cs [] {} (released L l (map snd cs))"
      by (rule Destroy_transition [OF v False L cs, where ?L0.0 = "L\<lparr>refs := refs L - 1\<rparr>"])
        (simp_all add: st1_def)
    with OpRelease False L show ?thesis
      by (auto simp: MIDIListRelease_def load_list_def st1_def Let_def)
  qed
next
  case (OpAdd l x m)
  with d show ?thesis
    by (auto simp: op_defined_def MIDIListAdd_def load_list_def list_item_retain_def Let_def)
next
  case (OpRemove l x)
  show ?thesis
  proof (cases "l = NULL \<or> x = NULL")
    case True
    with OpRemove show ?thesis by (auto simp: MIDIListRemove_def)
  next
    case False
    with d OpRemove obtain L where L: "list_mem st l = Some L" by (auto simp: op_defined_def)
    from valid_chain [OF v L] obtain cs where cs: "chain (entry_mem st) (data L) cs" by blast
    from False Remove_transition [OF v _ _ L cs, of x] OpRemove show ?thesis by auto
  qed
next
  case (OpApply l info func fn)
  show ?thesis
  proof (cases "l = NULL \<or> func = NULL")
    case True
    with OpApply show ?thesis by (auto simp: MIDIListApply_def)
  next
    case False
    with d OpApply obtain L where L: "list_mem st l = Some L" by (auto simp: op_defined_def)
    from valid_chain [OF v L] obtain cs where cs: "chain (entry_mem st) (data L) cs" by blast
    from False L apply_loop_chain [OF cs, of fn info 0] OpApply show ?thesis
      by (simp add: MIDIListApply_def load_list_def)
  qed
qed

lemma op_summary_balance_kept:
  assumes v: "valid st" and s: "op_summary op st st'"
  shows "balance_kept st st'"
proof -
  from s obtain t cs cs' fresh calls where tr: "transition st st' t cs cs' fresh calls"
    unfolding op_summary_def by blast
  show ?thesis
    unfolding balance_kept_def
  proof (intro allI impI)
    fix l L ds x
    assume "list_mem st l = Some L \<and> retain L \<noteq> NULL \<and> release L \<noteq> NULL \<and>
      chain (entry_mem st) (data L) ds \<and> x \<noteq> NULL"
    then have a: "list_mem st l = Some L" "retain L \<noteq> NULL" "release L \<noteq> NULL"
      "chain (entry_mem st) (data L) ds" "x \<noteq> NULL" by simp_all
    from transition_delta [OF v tr a]
    show "\<exists>cs'. (case list_mem st' l of None \<Rightarrow> cs' = []
                 | Some L' \<Rightarrow> retain L' = retain L \<and> release L' = release L \<and>
                     chain (entry_mem st') (data L') cs') \<and>
           pending l x (hook_calls st') - int (count_list (map snd cs') x) =
           pending l x (hook_calls st) - int (count_list (map snd ds) x)" .
  qed
qed

lemma op_summary_balanced:
  assumes v: "valid st" and s: "op_summary op st st'" and b: "balanced st"
    and clean: "\<forall>r s m x. op = OpCreate r s m \<longrightarrow> pending m x (hook_calls st) = 0"
  shows "balanced st'"
proof -
  from s obtain t cs cs' fresh calls where tr: "transition st st' t cs cs' fresh calls"
    and c: "list_mem st t = None \<and> list_mem st' t \<noteq> None \<longrightarrow> (\<exists>r s. op = OpCreate r s t)"
    unfolding op_summary_def by blast
  from c clean have "list_mem st t = None \<longrightarrow> list_mem st' t \<noteq> None \<longrightarrow>
      (\<forall>x. pending t x (hook_calls st) = 0)" by blast
  with v tr b show ?thesis by (rule transition_balanced)
qed


lemma target_effectD:
  assumes "target_effect op st st'" and "op_list op = Some l" and "list_mem st l = Some L"
    and "chain (entry_mem st) (data L) cs"
  shows "hook_calls st' = hook_calls st @ expected_calls op L (map snd cs) \<and>
     (case expected_cells op L cs of
        None \<Rightarrow> list_mem st' l = None
      | Some cs' \<Rightarrow>
          (case list_mem st' l of None \<Rightarrow> False
           | Some L' \<Rightarrow> chain (entry_mem st') (data L') cs'))"
  using assms unfolding target_effect_def by simp

lemma example_list:
  "list_mem example_memory l = Some L \<longleftrightarrow>
     l = 1 \<and> L = \<lparr>refs = 1, retain = 7, release = 8, data = 10\<rparr>"
  by (auto simp: example_memory_def)

lemma example_valid: "valid example_memory"
  unfolding valid_def
proof (intro conjI allI impI)
  show "list_mem example_memory NULL = None" by (simp add: example_memory_def)
next
  fix l L assume "list_mem example_memory l = Some L"
  then have "data L = 10" by (simp add: example_list)
  with example_chain show "\<exists>cs. chain (entry_mem example_memory) (data L) cs" by auto
next
  fix l l' L L' cs cs'
  assume "l \<noteq> l' \<and> list_mem example_memory l = Some L \<and> list_mem example_memory l' = Some L' \<and>
    chain (entry_mem example_memory) (data L) cs \<and> chain (entry_mem example_memory) (data L') cs'"
  then show "fst ` set cs \<inter> fst ` set cs' = {}" by (auto simp: example_list)
qed

lemma example_balanced: "balanced example_memory"
  unfolding balanced_def
proof (intro allI impI)
  fix l L cs x
  assume a: "list_mem example_memory l = Some L \<and> retain L \<noteq> NULL \<and> release L \<noteq> NULL \<and>
    chain (entry_mem example_memory) (data L) cs \<and> x \<noteq> NULL"
  then have l: "l = 1" and "data L = 10" by (simp_all add: example_list)
  with a have "chain (entry_mem example_memory) 10 cs" by simp
  with example_chain have cs: "cs = [(10, 5), (11, 6), (12, 5)]" by (rule chain_unique [symmetric])
  show "pending l x (hook_calls example_memory) = int (count_list (map snd cs) x)"
    unfolding l cs by (simp add: pending_def example_memory_def)
qed


text \<open>
  Claim C3. Every list operation keeps the invariant of the hooks. On a well-formed memory,
  every call of \<^verbatim>\<open>MIDIListCreate\<close>, \<^verbatim>\<open>MIDIListDestroy\<close>, \<^verbatim>\<open>MIDIListRetain\<close>, \<^verbatim>\<open>MIDIListRelease\<close>,
  \<^verbatim>\<open>MIDIListAdd\<close>, \<^verbatim>\<open>MIDIListRemove\<close> or \<^verbatim>\<open>MIDIListApply\<close> that does not go through a dangling
  list pointer or a failed allocation returns, in a well-formed memory, and
  \<^item> it has made exactly the expected hook calls (\<open>target_effect\<close>): \<^verbatim>\<open>MIDIListAdd\<close> one retain
    call for the item it links in, \<^verbatim>\<open>MIDIListRemove\<close> and \<^verbatim>\<open>MIDIListDestroy\<close> one release call
    for each entry they unlink, nothing when the hook pointer or the item is \<open>NULL\<close>, and no
    other call any;
  \<^item> for every list with both hooks and every item, the difference between the calls pending
    and the occurrences stored is as before (\<open>balance_kept\<close>);
  \<^item> hence a memory in which every stored item has been retained exactly once and not yet
    released stays so (\<open>balanced\<close>), provided a list that is created starts without pending
    calls recorded for its address.
\<close>

theorem list_operations_keep_hooks_balanced:
  assumes "valid st" and "malloc_fresh op st" and "op_defined op st"
  shows "\<exists>st'. run_op op st = Some (Inr st') \<and> valid st' \<and> target_effect op st st' \<and>
           balance_kept st st' \<and>
           (balanced st \<and> (\<forall>r s m x. op = OpCreate r s m \<longrightarrow> pending m x (hook_calls st) = 0)
             \<longrightarrow> balanced st')"
proof -
  from run_op_returns [OF assms(1,3)] obtain st' where run: "run_op op st = Some (Inr st')" ..
  from run_op_summary [OF assms(1,2) run] have s: "op_summary op st st'" .
  then obtain t cs cs' fresh calls where tr: "transition st st' t cs cs' fresh calls"
    unfolding op_summary_def by blast
  have "valid st'" using assms(1) tr by (rule transition_valid)
  moreover have "target_effect op st st'" using s unfolding op_summary_def by simp
  moreover have "balance_kept st st'" using assms(1) s by (rule op_summary_balance_kept)
  moreover have "balanced st \<and>
      (\<forall>r s m x. op = OpCreate r s m \<longrightarrow> pending m x (hook_calls st) = 0) \<longrightarrow> balanced st'"
    using op_summary_balanced [OF assms(1) s] by blast
  ultimately show ?thesis using run by blast
qed

theorem list_operations_keep_hooks_balanced_witness:
  "valid example_memory \<and> balanced example_memory \<and>
   malloc_fresh (OpAdd 1 6 20) example_memory \<and> op_defined (OpAdd 1 6 20) example_memory \<and>
   (\<exists>st'. run_op (OpAdd 1 6 20) example_memory = Some (Inr st') \<and> valid st' \<and> balanced st' \<and>
      hook_calls st' = hook_calls example_memory @ [RetainCall 1 6] \<and>
      (\<exists>L'. list_mem st' 1 = Some L' \<and>
         chain (entry_mem st') (data L') [(20, 6), (10, 5), (11, 6), (12, 5)]))"
proof -
  have f: "malloc_fresh (OpAdd 1 6 20) example_memory"
    by (simp add: example_memory_def)
  have d: "op_defined (OpAdd 1 6 20) example_memory"
    by (simp add: op_defined_def example_memory_def)
  from list_operations_keep_hooks_balanced [OF example_valid f d]
  obtain st' where st': "run_op (OpAdd 1 6 20) example_memory = Some (Inr st')" "valid st'"
    "target_effect (OpAdd 1 6 20) example_memory st'"
    "balanced example_memory \<and>
      (\<forall>r s m x. OpAdd 1 6 20 = OpCreate r s m \<longrightarrow> pending m x (hook_calls example_memory) = 0)
      \<longrightarrow> balanced st'"
    by blast
  from st'(4) example_balanced have b: "balanced st'" by simp
  have L: "list_mem example_memory 1 = Some \<lparr>refs = 1, retain = 7, release = 8, data = 10\<rparr>"
    by (simp add: example_list)
  have c: "chain (entry_mem example_memory) (data \<lparr>refs = 1, retain = 7, release = 8, data = 10\<rparr>)
      [(10, 5), (11, 6), (12, 5)]"
    using example_chain by simp
  from target_effectD [OF st'(3) _ L c]
  have "hook_calls st' = hook_calls example_memory @ [RetainCall 1 6] \<and>
      (\<exists>L'. list_mem st' 1 = Some L' \<and>
         chain (entry_mem st') (data L') [(20, 6), (10, 5), (11, 6), (12, 5)])"
    by (simp split: option.splits)
  with st'(1,2) b example_valid example_balanced f d show ?thesis by blast
qed

section \<open>Properties of the network transport as specified\<close>

subsection \<open>RTP transport\<close>

declare vlq_prefix.simps [simp del]

lemma unat_byte: "k < 256 \<Longrightarrow> unat (of_nat k :: byte) = k"
  by (simp add: unat_of_nat)

declare vlq_value.simps [simp del]

lemma vlq_value_0: "vlq_value 0 n = n"
proof (induction n rule: less_induct)
  case (less n)
  show ?case
  proof (cases "n = 0")
    case True
    then show ?thesis by (simp add: vlq_value.simps)
  next
    case False
    then have "n div 128 < n" by simp
    with less have "vlq_value 0 (n div 128) = n div 128" by simp
    with False show ?thesis by (subst vlq_value.simps) simp
  qed
qed

lemma vlq_decode_prefix:
  "vlq_decode acc (vlq_prefix n @ r) = vlq_decode (vlq_value acc n) r"
proof (induction n arbitrary: r rule: less_induct)
  case (less n)
  show ?case
  proof (cases "n = 0")
    case True
    then show ?thesis by (simp add: vlq_prefix.simps vlq_value.simps)
  next
    case False
    then have lt: "n div 128 < n" by simp
    have b: "unat (of_nat (128 + n mod 128) :: byte) = 128 + n mod 128"
      by (rule unat_byte) simp
    have "vlq_decode acc (vlq_prefix n @ r) =
        vlq_decode acc (vlq_prefix (n div 128) @ (of_nat (128 + n mod 128) # r))"
      using False by (subst vlq_prefix.simps) simp
    also have "\<dots> = vlq_decode (vlq_value acc (n div 128)) (of_nat (128 + n mod 128) # r)"
      using less [OF lt] .
    also have "\<dots> = vlq_decode (vlq_value acc (n div 128) * 128 + n mod 128) r"
      by (simp only: vlq_decode.simps b) simp
    also have "\<dots> = vlq_decode (vlq_value acc n) r"
      using False by (subst (2) vlq_value.simps) simp
    finally show ?thesis .
  qed
qed

lemma vlq_roundtrip: "vlq_decode 0 (vlq_encode n @ r) = Some (n, r)"
proof -
  have b: "unat (of_nat (n mod 128) :: byte) = n mod 128"
    by (rule unat_byte) simp
  have "vlq_decode 0 (vlq_encode n @ r) = vlq_decode (n div 128) (of_nat (n mod 128) # r)"
    by (simp add: vlq_encode_def vlq_decode_prefix vlq_value_0)
  also have "\<dots> = Some (n div 128 * 128 + n mod 128, r)"
  proof -
    have "\<not> 128 \<le> n mod 128" by simp
    then show ?thesis by (simp only: vlq_decode.simps b if_False)
  qed
  finally show ?thesis by simp
qed

lemma rd16_be16: "rd16 (ucast (drop_bit 8 w)) (ucast w) = w"
  unfolding rd16_def
  by (rule bit_word_eqI) (auto simp: bit_simps)

lemma rd32_be32:
  "rd32 (ucast (drop_bit 24 w)) (ucast (drop_bit 16 w)) (ucast (drop_bit 8 w)) (ucast w) = w"
  unfolding rd32_def
proof (rule bit_word_eqI)
  fix n assume "n < LENGTH(32)"
  then consider "n < 8" | "8 \<le> n" "n < 16" | "16 \<le> n" "n < 24" | "24 \<le> n" "n < 32"
    by fastforce
  then show "bit (push_bit 24 (ucast (ucast (drop_bit 24 w) :: byte)) OR
        push_bit 16 (ucast (ucast (drop_bit 16 w) :: byte)) OR
        push_bit 8 (ucast (ucast (drop_bit 8 w) :: byte)) OR ucast (ucast w :: byte) :: 32 word) n
      = bit w n"
    by cases (auto simp: bit_simps)
qed

lemma byte_bit_below_7:
  assumes "(x::byte) \<le> 0x7f" and "bit x n"
  shows "n < 7"
proof -
  have "x < 2 ^ 7"
    using assms(1) by (simp add: word_le_nat_alt word_less_nat_alt)
  then have "x AND mask 7 = x"
    by (rule less_mask_eq)
  then have "take_bit 7 x = x"
    by (simp add: take_bit_eq_mask)
  then have "bit (take_bit 7 x) n"
    using assms(2) by simp
  then show ?thesis
    by (simp add: bit_take_bit_iff)
qed

lemma bit_128_int: "bit (128 :: int) n \<longleftrightarrow> n = 7"
proof -
  have "bit (2 ^ 7 :: int) n \<longleftrightarrow> n = 7"
    by (simp only: bit_exp_iff) auto
  then show ?thesis by simp
qed

lemma marker_payload_type:
  assumes "(pt::byte) \<le> 0x7f"
  shows "(0x80 OR pt) AND 0x7f = pt"
proof -
  have m: "(0x7f :: byte) = mask 7" by (simp add: mask_eq_exp_minus_1)
  show ?thesis
    unfolding m
    by (rule bit_word_eqI) (auto simp: bit_simps bit_128_int dest: byte_bit_below_7 [OF assms])
qed

lemma version_bits: "drop_bit 6 (0x80 :: byte) = 2"
  by simp

declare parse_commands.simps [simp del]

lemma parse_command_section:
  assumes "codec_ok K"
  shows "parse_commands K (command_section K cmds) = (cmds, False)"
proof (induction cmds)
  case Nil
  show ?case by (simp add: command_section_def parse_commands.simps)
next
  case (Cons a cmds)
  obtain dt c where a: "a = (dt, c)" by (cases a)
  have sec: "command_section K ((dt, c) # cmds) =
      vlq_encode dt @ (put_command K c @ command_section K cmds)"
    by (simp add: command_section_def)
  have ne: "command_section K ((dt, c) # cmds) \<noteq> []"
    by (simp add: sec vlq_encode_def)
  have gc: "get_command K (put_command K c @ command_section K cmds) =
      Some (c, length (put_command K c))"
    using assms unfolding codec_ok_def by blast
  show ?case
    unfolding a using ne Cons.IH
    by (subst parse_commands.simps) (simp add: sec vlq_roundtrip gc)
qed


lemma send_packets_Cons:
  "snd (send_packets K (p # ps) t) = snd (send_packets K ps (t\<lparr>send_seq := send_seq t + 1\<rparr>))"
  by (simp add: transport_send_def split: prod.splits)

lemma send_packets_seq:
  "send_seq (snd (send_packets K ps t)) = send_seq t + of_nat (length ps)"
proof (induction ps arbitrary: t)
  case Nil
  show ?case by simp
next
  case (Cons p ps)
  show ?case
    unfolding send_packets_Cons Cons.IH by simp
qed

lemma example_codec_ok: "codec_ok example_codec"
  by (auto simp: codec_ok_def example_codec_def vlq_roundtrip)

lemma example_datagram:
  "rtp_encode example_codec 7 1000 5 [(0, (0x90, 60, 100)), (200, (0x80, 60, 0))] =
     [0x80, 0xE1, 0, 7, 0, 0, 3, 0xE8, 0, 0, 0, 5, 9, 0, 0x90, 60, 100, 0x81, 0x48, 0x80, 60, 0]"
  by (simp add: rtp_encode_def example_codec_def be16_def be32_def command_section_def
      vlq_encode_def vlq_prefix.simps)

text \<open>
  Claim C5. For every session and every number \<open>k\<close> of packets sent (the list \<open>ps\<close> of their
  timestamps and commands has length \<open>k\<close>), the outbound sequence number afterwards is the
  initial one plus \<open>k\<close>, modulo 65536.
\<close>

theorem outbound_sequence_number:
  "unat (send_seq (snd (send_packets K ps t))) = (unat (send_seq t) + length ps) mod 65536"
proof -
  have "unat (send_seq t + of_nat (length ps)) =
      (unat (send_seq t) + unat (of_nat (length ps) :: 16 word)) mod 2 ^ 16"
    by (simp add: unat_word_ariths)
  also have "\<dots> = (unat (send_seq t) + length ps mod 2 ^ 16) mod 2 ^ 16"
    by (simp add: unat_of_nat)
  also have "\<dots> = (unat (send_seq t) + length ps) mod 2 ^ 16"
    by (simp add: mod_add_right_eq)
  finally show ?thesis by (simp add: send_packets_seq)
qed

text \<open>
  Claim C6. For every list of MIDI commands with delta-times, decoding the datagram that
  Encode produces for it gives back the same sequence number, timestamp and SSRC and exactly
  the same ordered list of commands with the same delta-times, with no decode fault, for any
  payload type of seven bits and any length prefix and message formatter that read back what
  they wrote.
\<close>

theorem rtp_roundtrip:
  assumes "codec_ok K"
  shows "rtp_decode K (rtp_encode K seq ts ssrc cmds) =
           Inr \<lparr>pkt_seq = seq, pkt_timestamp = ts, pkt_ssrc = ssrc, pkt_commands = cmds,
                pkt_truncated = False\<rparr>"
proof -
  have pt: "(0x80 OR payload_type K) AND 0x7f = payload_type K"
    using assms unfolding codec_ok_def by (intro marker_payload_type) simp
  have gl: "get_length K (put_length K (length (command_section K cmds)) @ command_section K cmds)
      = Some (length (command_section K cmds), command_section K cmds)"
    using assms unfolding codec_ok_def by blast
  show ?thesis
    unfolding rtp_encode_def rtp_decode_def be16_def be32_def
    by (simp add: pt gl rd16_be16 rd32_be32 parse_command_section [OF assms])
qed

theorem rtp_roundtrip_witness:
  "codec_ok example_codec \<and>
   rtp_decode example_codec
     (rtp_encode example_codec 7 1000 5 [(0, (0x90, 60, 100)), (200, (0x80, 60, 0))]) =
     Inr \<lparr>pkt_seq = 7, pkt_timestamp = 1000, pkt_ssrc = 5,
          pkt_commands = [(0, (0x90, 60, 100)), (200, (0x80, 60, 0))], pkt_truncated = False\<rparr>"
  using rtp_roundtrip [OF example_codec_ok] example_codec_ok by simp

subsection \<open>Clock handshake\<close>

lemma example_values:
  "(case synthetic_timestamps 5000 1000 0 of
        (t1, t2, t3) \<Rightarrow> sync_latency t1 t2 t3 = 500 \<and> sync_offset t1 t2 t3 = 500)"
  by (simp add: synthetic_timestamps_def sync_latency_def sync_offset_def)




subsection \<open>Session state machine\<close>

lemma invite_from_Idle:
  "state s = Idle \<Longrightarrow>
   state (snd (invite token name s)) = Inviting \<and>
   initiator_token (snd (invite token name s)) = token"
  by (simp add: invite_def)


text \<open>
  Claim C8. In state Inviting, an acceptance or a rejection whose token is not the initiator
  token that was sent leaves the session as it is (state included); a rejection with the
  token that was sent takes the session to Closed.
\<close>

theorem invitation_token_guard:
  assumes "state s = Inviting"
  shows "(token \<noteq> initiator_token s \<longrightarrow>
            on_control_packet (Accepted token ssrc name) s = s \<and>
            on_control_packet (Rejected token) s = s) \<and>
         state (on_control_packet (Rejected (initiator_token s)) s) = Closed"
  using assms by simp

theorem invitation_token_guard_witness:
  "state (snd (invite 77 ''studio'' example_session)) = Inviting \<and>
   on_control_packet (Accepted 78 9 ''peer'') (snd (invite 77 ''studio'' example_session))
     = snd (invite 77 ''studio'' example_session) \<and>
   on_control_packet (Rejected 78) (snd (invite 77 ''studio'' example_session))
     = snd (invite 77 ''studio'' example_session) \<and>
   state (on_control_packet (Rejected 77) (snd (invite 77 ''studio'' example_session))) = Closed"
proof -
  have i: "state (snd (invite 77 ''studio'' example_session)) = Inviting"
    by (simp add: invite_def example_session_def)
  have t: "initiator_token (snd (invite 77 ''studio'' example_session)) = 77"
    by (simp add: invite_def example_session_def)
  show ?thesis
    using invitation_token_guard [OF i, where token = 78 and ssrc = 9 and name = "''peer''"] i t
    by simp
qed

subsection \<open>Message queue\<close>

lemma flush_split:
  "flush s cap q = (out, r) \<Longrightarrow>
     pending_for s q = out @ pending_for s r \<and>
     (\<forall>s'. s' \<noteq> s \<longrightarrow> pending_for s' r = pending_for s' q) \<and>
     length out \<le> cap \<and> length out + length r = length q \<and>
     (0 < cap \<and> pending_for s q \<noteq> [] \<longrightarrow> out \<noteq> [])"
proof (induction s cap q arbitrary: out r rule: flush.induct)
  case (1 sid q)
  then show ?case by simp
next
  case (2 sid n)
  then show ?case by (simp add: pending_for_def)
next
  case (3 sid n e q)
  show ?case
  proof (cases "fst e = sid")
    case True
    obtain out' r' where f: "flush sid n q = (out', r')" by (cases "flush sid n q")
    with 3(3) True have o: "out = snd e # out'" "r = r'" by simp_all
    from 3(1) [OF True f] True show ?thesis
      unfolding o by (auto simp: pending_for_def)
  next
    case False
    obtain out' r' where f: "flush sid (Suc n) q = (out', r')" by (cases "flush sid (Suc n) q")
    with 3(3) False have o: "out = out'" "r = e # r'" by simp_all
    from 3(2) [OF False f] False show ?thesis
      unfolding o by (auto simp: pending_for_def)
  qed
qed

lemma tick_sessions_split:
  "tick_sessions cap ss q = (ps, r) \<Longrightarrow>
     pending_for s q = sent_for s ps @ pending_for s r \<and>
     length r \<le> length q \<and> (\<forall>p \<in> set ps. length (snd p) \<le> cap)"
proof (induction ss arbitrary: q ps r)
  case Nil
  then show ?case by (simp add: sent_for_def)
next
  case (Cons a ss)
  obtain out r1 where f: "flush a cap q = (out, r1)" by (cases "flush a cap q")
  obtain ps1 r2 where t: "tick_sessions cap ss r1 = (ps1, r2)"
    by (cases "tick_sessions cap ss r1")
  from Cons.prems(1) f t have o: "ps = (a, out) # ps1" "r = r2" by simp_all
  note ih = Cons.IH [OF t]
  note fs = flush_split [OF f]
  show ?case
  proof (cases "a = s")
    case True
    with fs ih show ?thesis unfolding o by (auto simp: sent_for_def)
  next
    case False
    with fs ih show ?thesis unfolding o by (auto simp: sent_for_def)
  qed
qed

lemma tick_sessions_progress:
  "tick_sessions cap ss q = (ps, r) \<Longrightarrow> s \<in> set ss \<Longrightarrow> pending_for s q \<noteq> [] \<Longrightarrow> 0 < cap \<Longrightarrow>
     length r < length q"
proof (induction ss arbitrary: q ps r)
  case Nil
  then show ?case by simp
next
  case (Cons a ss)
  obtain out r1 where f: "flush a cap q = (out, r1)" by (cases "flush a cap q")
  obtain ps1 r2 where t: "tick_sessions cap ss r1 = (ps1, r2)"
    by (cases "tick_sessions cap ss r1")
  from Cons.prems(1) f t have o: "ps = (a, out) # ps1" "r = r2" by simp_all
  note fs = flush_split [OF f]
  show ?case
  proof (cases "a = s")
    case True
    with fs Cons.prems(3,4) have "out \<noteq> []" by simp
    with fs have "length r1 < length q" by (cases out) auto
    moreover have "length r2 \<le> length r1"
      using tick_sessions_split [OF t] by simp
    ultimately show ?thesis unfolding o by simp
  next
    case False
    with Cons.prems(2) have "s \<in> set ss" by simp
    moreover from fs False Cons.prems(3) have "pending_for s r1 \<noteq> []" by simp
    ultimately have "length r2 < length r1" using Cons.IH [OF t] Cons.prems(4) by simp
    moreover from fs have "length r1 \<le> length q" by simp
    ultimately show ?thesis unfolding o by simp
  qed
qed

lemma tick_shrinks:
  assumes "tick cap q = (ps, r)" and "0 < cap" and "q \<noteq> []"
  shows "length r < length q"
proof -
  from assms(3) obtain e q' where q: "q = e # q'" by (cases q) auto
  then have m: "fst e \<in> set (remdups (map fst q))" and p: "pending_for (fst e) q \<noteq> []"
    by (simp_all add: pending_for_def)
  from assms(1) have "tick_sessions cap (remdups (map fst q)) q = (ps, r)"
    by (simp add: tick_def)
  from tick_sessions_progress [OF this m p assms(2)] show ?thesis .
qed

lemma run_ticks_split:
  "run_ticks cap n q = (ps, r) \<Longrightarrow>
     pending_for s q = sent_for s ps @ pending_for s r \<and> (\<forall>p \<in> set ps. length (snd p) \<le> cap)"
proof (induction n arbitrary: q ps r)
  case 0
  then show ?case by (simp add: sent_for_def)
next
  case (Suc n)
  obtain ps1 r1 where t: "tick cap q = (ps1, r1)" by (cases "tick cap q")
  obtain ps2 r2 where u: "run_ticks cap n r1 = (ps2, r2)" by (cases "run_ticks cap n r1")
  from Suc.prems t u have o: "ps = ps1 @ ps2" "r = r2" by simp_all
  from t have "pending_for s q = sent_for s ps1 @ pending_for s r1 \<and>
      (\<forall>p \<in> set ps1. length (snd p) \<le> cap)"
    unfolding tick_def using tick_sessions_split by blast
  with Suc.IH [OF u] show ?case
    unfolding o by (auto simp: sent_for_def)
qed

lemma run_ticks_drains:
  "0 < cap \<Longrightarrow> length q \<le> n \<Longrightarrow> snd (run_ticks cap n q) = []"
proof (induction n arbitrary: q)
  case 0
  then show ?case by simp
next
  case (Suc n)
  obtain ps1 r1 where t: "tick cap q = (ps1, r1)" by (cases "tick cap q")
  have "length r1 \<le> n"
  proof (cases "q = []")
    case True
    with t show ?thesis by (simp add: tick_def)
  next
    case False
    from tick_shrinks [OF t Suc.prems(1) False] Suc.prems(2) show ?thesis by simp
  qed
  then have "snd (run_ticks cap n r1) = []" by (rule Suc.IH [OF Suc.prems(1)])
  moreover have "snd (run_ticks cap (Suc n) q) = snd (run_ticks cap n r1)"
    using t by (simp split: prod.splits)
  ultimately show ?case by simp
qed

lemma pending_for_Nil: "pending_for s [] = []"
  by (simp add: pending_for_def)


text \<open>
  Claim C9. The queue drops nothing. For every queue \<open>q\<close>, every cap and every number \<open>n\<close>
  of ticks: for each session, the commands sent in the \<open>n\<close> ticks followed by the commands
  still queued are the commands that were queued, in their order; no packet holds more than
  cap commands. With a cap of at least one command, after as many ticks as there were entries
  the queue is empty and every session has been sent all its commands in their order. An
  enqueue for a session that is not Closed succeeds and puts the command behind those queued.
\<close>

theorem queue_never_drops:
  "(\<forall>s. pending_for s q =
      sent_for s (fst (run_ticks cap n q)) @ pending_for s (snd (run_ticks cap n q))) \<and>
   (\<forall>p \<in> set (fst (run_ticks cap n q)). length (snd p) \<le> cap) \<and>
   (0 < cap \<and> length q \<le> n \<longrightarrow>
      snd (run_ticks cap n q) = [] \<and>
      (\<forall>s. sent_for s (fst (run_ticks cap n q)) = pending_for s q)) \<and>
   (st \<noteq> Closed \<longrightarrow>
      (\<exists>q'. enqueue st sid c q = Inr q' \<and> pending_for sid q' = pending_for sid q @ [c] \<and>
         (\<forall>s. s \<noteq> sid \<longrightarrow> pending_for s q' = pending_for s q)))"
proof -
  obtain ps r where run: "run_ticks cap n q = (ps, r)" by (cases "run_ticks cap n q")
  have a: "\<forall>s. pending_for s q = sent_for s ps @ pending_for s r"
    using run_ticks_split [OF run] by blast
  have b: "\<forall>p \<in> set ps. length (snd p) \<le> cap"
    using run_ticks_split [OF run] by blast
  have c: "0 < cap \<and> length q \<le> n \<longrightarrow> r = [] \<and> (\<forall>s. sent_for s ps = pending_for s q)"
  proof
    assume "0 < cap \<and> length q \<le> n"
    then have "r = []" using run_ticks_drains [of cap q n] run by simp
    with a show "r = [] \<and> (\<forall>s. sent_for s ps = pending_for s q)"
      by (simp add: pending_for_Nil)
  qed
  have d: "st \<noteq> Closed \<longrightarrow>
      (\<exists>q'. enqueue st sid c q = Inr q' \<and> pending_for sid q' = pending_for sid q @ [c] \<and>
         (\<forall>s. s \<noteq> sid \<longrightarrow> pending_for s q' = pending_for s q))"
    by (simp add: enqueue_def pending_for_def)
  show ?thesis
    unfolding run fst_conv snd_conv by (intro conjI a b c d)
qed

theorem queue_never_drops_witness:
  "run_ticks 2 3 [(1, ''a''), (2, ''b''), (1, ''c''), (1, ''d'')] =
     ([(2, [''b'']), (1, [''a'', ''c'']), (1, [''d''])], []) \<and>
   sent_for 1 (fst (run_ticks 2 4 [(1, ''a''), (2, ''b''), (1, ''c''), (1, ''d'')])) =
     [''a'', ''c'', ''d''] \<and>
   snd (run_ticks 2 4 [(1, ''a''), (2, ''b''), (1, ''c''), (1, ''d'')]) = [] \<and>
   (\<exists>q'. enqueue Idle 1 ''e'' [(1, ''a''), (2, ''b''), (1, ''c''), (1, ''d'')] = Inr q' \<and>
      pending_for 1 q' = [''a'', ''c'', ''d'', ''e''])"
proof -
  have e: "run_ticks 2 3 [(1, ''a''), (2, ''b''), (1, ''c''), (1, ''d'')] =
     ([(2, [''b'']), (1, [''a'', ''c'']), (1, [''d''])], [])"
    by (simp add: tick_def numeral_2_eq_2 numeral_3_eq_3)
  have p: "pending_for 1 [(1 :: nat, ''a''), (2, ''b''), (1, ''c''), (1, ''d'')] = [''a'', ''c'', ''d'']"
    by (simp add: pending_for_def)
  note t = queue_never_drops [of "[(1, ''a''), (2, ''b''), (1, ''c''), (1, ''d'')]" 2 4 Idle 1 "''e''"]
  have "0 < (2 :: nat) \<and> length [(1 :: nat, ''a''), (2, ''b''), (1, ''c''), (1, ''d'')] \<le> 4 \<longrightarrow>
      snd (run_ticks 2 4 [(1, ''a''), (2, ''b''), (1, ''c''), (1, ''d'')]) = [] \<and>
      (\<forall>s. sent_for s (fst (run_ticks 2 4 [(1, ''a''), (2, ''b''), (1, ''c''), (1, ''d'')])) =
         pending_for s [(1, ''a''), (2, ''b''), (1, ''c''), (1, ''d'')])"
    using t by blast
  then have d: "snd (run_ticks 2 4 [(1, ''a''), (2, ''b''), (1, ''c''), (1, ''d'')]) = []"
    "sent_for 1 (fst (run_ticks 2 4 [(1, ''a''), (2, ''b''), (1, ''c''), (1, ''d'')])) =
         pending_for 1 [(1, ''a''), (2, ''b''), (1, ''c''), (1, ''d'')]"
    by simp_all
  have "Idle \<noteq> Closed \<longrightarrow>
      (\<exists>q'. enqueue Idle 1 ''e'' [(1, ''a''), (2, ''b''), (1, ''c''), (1, ''d'')] = Inr q' \<and>
         pending_for 1 q' = pending_for 1 [(1, ''a''), (2, ''b''), (1, ''c''), (1, ''d'')] @ [''e''] \<and>
         (\<forall>s. s \<noteq> 1 \<longrightarrow> pending_for s q' =
            pending_for s [(1, ''a''), (2, ''b''), (1, ''c''), (1, ''d'')]))"
    using t by blast
  then have q: "\<exists>q'. enqueue Idle 1 ''e'' [(1, ''a''), (2, ''b''), (1, ''c''), (1, ''d'')] = Inr q' \<and>
      pending_for 1 q' = [''a'', ''c'', ''d'', ''e'']"
    unfolding p by auto
  from e d [unfolded p] q show ?thesis by (intro conjI)
qed

end
